theory Spec2Isabelle
  imports Main "HOL-Library.Word"
begin

unbundle bit_operations_syntax

section \<open>Go strings as byte lists\<close>

text \<open>
  A Go \<open>string\<close> is a sequence of bytes and \<open>len\<close>, indexing and slicing count bytes;
  it is modelled as \<^typ>\<open>string\<close>, one \<^typ>\<open>char\<close> per byte. A Go \<open>int\<close> is modelled as
  \<^typ>\<open>int\<close>: every integer below is an index into a string or a count of
  occurrences, far from the 64-bit range.
\<close>

text \<open>\<open>len(s)\<close>.\<close>

definition len :: "string \<Rightarrow> int" where
  "len s = int (length s)"

text \<open>\<open>strings.HasPrefix(s, prefix)\<close>.\<close>

fun HasPrefix :: "string \<Rightarrow> string \<Rightarrow> bool" where
  "HasPrefix s [] = True"
| "HasPrefix [] (p # ps) = False"
| "HasPrefix (c # s) (p # ps) = (c = p \<and> HasPrefix s ps)"

text \<open>\<open>strings.Index(s, substr)\<close>: the index of the first instance of \<open>substr\<close> in
  \<open>s\<close>, or \<open>-1\<close>.\<close>

fun Index :: "string \<Rightarrow> string \<Rightarrow> int" where
  "Index [] substr = (if substr = [] then 0 else - 1)"
| "Index (c # s) substr =
     (if HasPrefix (c # s) substr then 0
      else (let i = Index s substr in if i = - 1 then - 1 else i + 1))"

text \<open>
  \<open>strings.Count(s, substr)\<close>: the number of non-overlapping instances of \<open>substr\<close>,
  found as the library does, by searching again right after each instance. The program
  only counts non-empty separators; for the empty one the library returns one more than
  the number of code points, which on ASCII text is the value given here.
\<close>

function Count :: "string \<Rightarrow> string \<Rightarrow> int" where
  "Count s substr =
     (if substr = [] then 1 + len s
      else (let i = Index s substr in
            if i = - 1 then 0
            else 1 + Count (drop (nat i + length substr) s) substr))"
  by pat_completeness auto
termination
proof (relation "measure (\<lambda>(s, substr). length s)")
  show "wf (measure (\<lambda>(s, substr). length s))" by simp
next
  fix s substr :: string and i :: int
  assume ne: "substr \<noteq> []" and i: "i = Index s substr" and found: "i \<noteq> - 1"
  have "s \<noteq> []"
    using ne i found by (cases s) auto
  then show "((drop (nat i + length substr) s, substr), (s, substr))
               \<in> measure (\<lambda>(s, substr). length s)"
    using ne by (cases s) auto
qed

declare Count.simps [simp del]

text \<open>\<open>strings.LastIndexByte(s, c)\<close>: the index of the last instance of the byte, or
  \<open>-1\<close>.\<close>

fun LastIndexByte :: "string \<Rightarrow> char \<Rightarrow> int" where
  "LastIndexByte [] c = - 1"
| "LastIndexByte (x # xs) c =
     (let i = LastIndexByte xs c in
      if i \<noteq> - 1 then i + 1 else if x = c then 0 else - 1)"

text \<open>\<open>strings.LastIndexAny(s, chars)\<close> for a set \<open>chars\<close> of ASCII characters: the
  index of the last byte of \<open>s\<close> that is one of them, or \<open>-1\<close>.\<close>

fun LastIndexAny :: "string \<Rightarrow> string \<Rightarrow> int" where
  "LastIndexAny [] chars = - 1"
| "LastIndexAny (x # xs) chars =
     (let i = LastIndexAny xs chars in
      if i \<noteq> - 1 then i + 1 else if x \<in> set chars then 0 else - 1)"

text \<open>
  What aborts the program: a slice expression out of range, \<open>panic(err)\<close> on an
  error value, \<open>sync.WaitGroup.Done\<close> on a counter that is already zero, or a field read
  through a nil pointer. The
  regular expression library reports a pattern it cannot compile by an error; the ones
  distinguished here are its "missing closing )" and a marker for the patterns that the
  model of the library given below does not cover.
\<close>

datatype regexp_error = ErrMissingParen | ErrNotModelled

datatype panic =
    SliceBoundsOutOfRange
  | PanicError regexp_error
  | NegativeWaitGroupCounter
  | NilPointerDereference

text \<open>The slice expressions \<open>s[:i]\<close> and \<open>s[i:]\<close>, which panic out of range.\<close>

definition slice_to :: "string \<Rightarrow> int \<Rightarrow> panic + string" where
  "slice_to s i = (if 0 \<le> i \<and> i \<le> len s then Inr (take (nat i) s) else Inl SliceBoundsOutOfRange)"

definition slice_from :: "string \<Rightarrow> int \<Rightarrow> panic + string" where
  "slice_from s i = (if 0 \<le> i \<and> i \<le> len s then Inr (drop (nat i) s) else Inl SliceBoundsOutOfRange)"

section \<open>The regular expression library\<close>

text \<open>
  \<open>regexp.MatchString(pattern, s)\<close> compiles \<open>pattern\<close> and reports whether \<open>s\<close>
  contains a match of it, or the error of the compilation. The program is modelled
  over any such function, \<^typ>\<open>string \<Rightarrow> string \<Rightarrow> regexp_error + bool\<close>, so what is
  proved for every input holds whatever the library does.

  To run the program on concrete inputs, \<open>regexp_MatchString\<close> gives the library's
  answer on a fragment of its pattern syntax:
  \<^item> a pattern of ASCII bytes none of which is special (the special ones are
    \<open>\ . + * ? ( ) | [ ] { } ^ $\<close>) or is the dot: each byte stands for itself, the dot for
    any byte but the newline, and the pattern matches anywhere in \<open>s\<close>;
  \<open>s\<close> is ASCII wherever the program calls it;
  \<^item> a pattern of such bytes and at least one \<open>(\<close>, never closed: the compilation fails
    with "missing closing )".
  Any other pattern is answered \<^term>\<open>ErrNotModelled\<close>.
\<close>

definition backslash :: char where
  "backslash = CHR 0x5C"

definition newline :: char where
  "newline = CHR 0x0A"

definition backquote :: char where
  "backquote = CHR 0x60"

definition special :: "char \<Rightarrow> bool" where
  "special c = (c \<in> set ''.+*?()|[]{}^$'' \<or> c = backslash)"

definition literal_or_dot :: "char \<Rightarrow> bool" where
  "literal_or_dot c = (c = CHR ''.'' \<or> (\<not> special c \<and> \<not> bit (of_char c :: nat) 7))"

fun match_here :: "string \<Rightarrow> string \<Rightarrow> bool" where
  "match_here [] s = True"
| "match_here (p # ps) [] = False"
| "match_here (p # ps) (c # s) =
     ((if p = CHR ''.'' then c \<noteq> newline else c = p) \<and> match_here ps s)"

fun match_anywhere :: "string \<Rightarrow> string \<Rightarrow> bool" where
  "match_anywhere p [] = match_here p []"
| "match_anywhere p (c # s) = (match_here p (c # s) \<or> match_anywhere p s)"

definition regexp_MatchString :: "string \<Rightarrow> string \<Rightarrow> regexp_error + bool" where
  "regexp_MatchString pattern s =
     (if list_all literal_or_dot pattern then Inr (match_anywhere pattern s)
      else if list_all (\<lambda>c. literal_or_dot c \<or> c = CHR ''('') pattern then Inl ErrMissingParen
      else Inl ErrNotModelled)"

section \<open>Splitting the pending reply: \<open>splitResponse\<close>\<close>

text \<open>The triple backquote, and the pattern of a numbered item written in the source,
  \<open>^\d+\. .*\<close>.\<close>

definition fence :: string where
  "fence = [backquote, backquote, backquote]"

definition enum_pattern :: string where
  "enum_pattern = ''^'' @ backslash # ''d+'' @ backslash # ''. .*''"

text \<open>
  The part of \<open>splitResponse\<close> after its first statement, on the text \<open>t\<close> that statement
  leaves: the empty text, the last newline, the enumerations, the short text, and the
  search of the last punctuation. The source calls
  \<open>regexp.MatchString(t, `^\d+\. .*`)\<close>: the pending text is the first argument, the
  pattern, and the literal is the second, the text searched. An error of that call
  panics.
\<close>

definition splitTail :: "(string \<Rightarrow> string \<Rightarrow> regexp_error + bool) \<Rightarrow> string \<Rightarrow> panic + int" where
  "splitTail MatchString t =
     (if t = [] then Inr 0
      else if LastIndexByte t newline \<ge> 10 then Inr (LastIndexByte t newline + 1)
      else
        (case (if HasPrefix t ''- '' \<or> HasPrefix t ''* '' then Inr True
               else MatchString t enum_pattern) of
           Inl err \<Rightarrow> Inl (PanicError err)
         | Inr isEnum \<Rightarrow>
             if isEnum then Inr 0
             else if len t < 10 then Inr 0
             else
               (let start = 0 in
                case (if Count t [backquote] AND 1 = 1
                      then slice_to t (LastIndexByte t backquote) else Inr t) of
                  Inl p \<Rightarrow> Inl p
                | Inr t' \<Rightarrow>
                    (case slice_from t' start of
                       Inl p \<Rightarrow> Inl p
                     | Inr u \<Rightarrow>
                         (let i = LastIndexAny u ''.?!'' in
                          if i = - 1 then Inr 0 else Inr (start + i + 1))))))"

text \<open>\<open>splitResponse(t)\<close>: the number of bytes of the pending reply to send now, 0 for
  nothing.\<close>

definition splitResponse :: "(string \<Rightarrow> string \<Rightarrow> regexp_error + bool) \<Rightarrow> string \<Rightarrow> panic + int" where
  "splitResponse MatchString t =
     (let backquotes = Count t fence in
      if backquotes = 1 then
        (case slice_to t (Index t fence) of
           Inl p \<Rightarrow> Inl p
         | Inr t' \<Rightarrow> splitTail MatchString t')
      else if backquotes \<ge> 2 then
        (let start = Index t fence + 3 in
         case slice_from t start of
           Inl p \<Rightarrow> Inl p
         | Inr u \<Rightarrow> Inr (Index u fence + start + 3))
      else splitTail MatchString t)"

section \<open>Facts about the string functions\<close>

lemma HasPrefix_iff: "HasPrefix s p \<longleftrightarrow> (\<exists>r. s = p @ r)"
  by (induction s p rule: HasPrefix.induct) auto

lemma HasPrefix_take: "HasPrefix s p \<longleftrightarrow> take (length p) s = p"
  by (induction s p rule: HasPrefix.induct) auto

lemma HasPrefix_length: "HasPrefix s p \<Longrightarrow> length p \<le> length s"
  by (auto simp: HasPrefix_iff)

lemma Index_range: "Index s substr = - 1 \<or> (0 \<le> Index s substr \<and> Index s substr + len substr \<le> len s)"
proof (induction s)
  case Nil
  show ?case by (simp add: len_def)
next
  case (Cons c s)
  show ?case
  proof (cases "HasPrefix (c # s) substr")
    case True
    then show ?thesis using HasPrefix_length [OF True] by (simp add: len_def)
  next
    case False
    then show ?thesis using Cons by (auto simp: Let_def len_def)
  qed
qed

lemma Index_ge: "- 1 \<le> Index s substr"
  using Index_range [of s substr] by auto

lemma Index_found: "Index s substr \<noteq> - 1 \<Longrightarrow> HasPrefix (drop (nat (Index s substr)) s) substr"
proof (induction s)
  case Nil
  then show ?case by (simp split: if_splits)
next
  case (Cons c s)
  show ?case
  proof (cases "HasPrefix (c # s) substr")
    case True
    then show ?thesis by simp
  next
    case False
    with Cons.prems have ne: "Index s substr \<noteq> - 1" by (auto simp: Let_def split: if_splits)
    have ge: "0 \<le> Index s substr" using ne Index_ge [of s substr] by linarith
    have "nat (Index s substr + 1) = Suc (nat (Index s substr))" using ge by simp
    then show ?thesis using False ne Cons.IH [OF ne] by (simp add: Let_def)
  qed
qed

lemma Index_first: "int j < Index s substr \<Longrightarrow> \<not> HasPrefix (drop j s) substr"
proof (induction s arbitrary: j)
  case Nil
  then show ?case by (simp split: if_splits)
next
  case (Cons c s)
  show ?case
  proof (cases "HasPrefix (c # s) substr")
    case True
    then show ?thesis using Cons.prems by simp
  next
    case False
    show ?thesis
    proof (cases j)
      case 0
      then show ?thesis using False by simp
    next
      case (Suc k)
      have "int k < Index s substr" using Cons.prems False Suc by (auto simp: Let_def split: if_splits)
      then show ?thesis using Cons.IH Suc by simp
    qed
  qed
qed

lemma Index_none: "Index s substr = - 1 \<Longrightarrow> \<not> HasPrefix (drop j s) substr"
proof (induction s arbitrary: j)
  case Nil
  then show ?case by (cases substr) (simp_all split: if_splits)
next
  case (Cons c s)
  have nh: "\<not> HasPrefix (c # s) substr" using Cons.prems by (auto split: if_splits)
  have n: "Index s substr = - 1" using Cons.prems nh Index_ge [of s substr] by (auto simp: Let_def split: if_splits)
  show ?case
  proof (cases j)
    case 0
    then show ?thesis using nh by simp
  next
    case (Suc k)
    then show ?thesis using Cons.IH [OF n] by simp
  qed
qed

lemma Index_eqI:
  assumes "HasPrefix (drop i s) substr" and "i \<le> length s" and "\<And>j. j < i \<Longrightarrow> \<not> HasPrefix (drop j s) substr"
  shows "Index s substr = int i"
proof -
  have ne: "Index s substr \<noteq> - 1" using Index_none assms(1) by blast
  then have ge: "0 \<le> Index s substr" using Index_ge [of s substr] by linarith
  have "\<not> int i < Index s substr" using Index_first assms(1) by blast
  moreover have "\<not> Index s substr < int i"
  proof
    assume "Index s substr < int i"
    then have "nat (Index s substr) < i" using ge by linarith
    then show False using assms(3) Index_found [OF ne] by blast
  qed
  ultimately show ?thesis by linarith
qed

lemma Count_nonneg: "0 \<le> Count s substr"
proof (induction s substr rule: Count.induct)
  case (1 s substr)
  show ?case
  proof (cases "substr = [] \<or> Index s substr = - 1")
    case True
    then show ?thesis by (auto simp: Count.simps [of s substr] len_def)
  next
    case False
    then show ?thesis using 1 by (simp add: Count.simps [of s substr] Let_def)
  qed
qed

lemma Count_none: "substr \<noteq> [] \<Longrightarrow> Index s substr = - 1 \<Longrightarrow> Count s substr = 0"
  by (simp add: Count.simps [of s substr])

lemma Count_step: "substr \<noteq> [] \<Longrightarrow> Index s substr \<noteq> - 1 \<Longrightarrow>
  Count s substr = 1 + Count (drop (nat (Index s substr) + length substr) s) substr"
  by (simp add: Count.simps [of s substr] Let_def)

lemma Count_zero_iff: "substr \<noteq> [] \<Longrightarrow> Count s substr = 0 \<longleftrightarrow> Index s substr = - 1"
proof (cases "Index s substr = - 1")
  case True
  assume "substr \<noteq> []"
  then show ?thesis using True Count_none by simp
next
  case False
  assume ne: "substr \<noteq> []"
  have "0 < Count s substr"
    using Count_step [OF ne False] Count_nonneg [of "drop (nat (Index s substr) + length substr) s" substr]
    by linarith
  then show ?thesis using False by simp
qed

lemma LastIndexByte_range: "- 1 \<le> LastIndexByte s c \<and> LastIndexByte s c < len s"
  by (induction s) (auto simp: Let_def len_def)

lemma LastIndexAny_range: "- 1 \<le> LastIndexAny s cs \<and> LastIndexAny s cs < len s"
  by (induction s) (auto simp: Let_def len_def)


lemma LastIndexByte_none_iff: "LastIndexByte s c = - 1 \<longleftrightarrow> c \<notin> set s"
proof (induction s)
  case Nil
  show ?case by simp
next
  case (Cons x xs)
  show ?case using Cons LastIndexByte_range [of xs c] by (auto simp: Let_def)
qed

lemma HasPrefix_single_mem: "HasPrefix (drop j s) [c] \<Longrightarrow> c \<in> set s"
proof -
  assume "HasPrefix (drop j s) [c]"
  then obtain r where "drop j s = c # r" by (auto simp: HasPrefix_iff)
  then have "c \<in> set (drop j s)" by simp
  then show ?thesis by (rule in_set_dropD)
qed

lemma Count_pos_mem:
  assumes "Count s [c] \<noteq> 0"
  shows "c \<in> set s"
proof -
  have "Index s [c] \<noteq> - 1" using assms Count_zero_iff [of "[c]" s] by auto
  then show ?thesis using Index_found HasPrefix_single_mem by blast
qed

lemma LastIndexByte_absent: "c \<notin> set s \<Longrightarrow> LastIndexByte s c = - 1"
  by (simp add: LastIndexByte_none_iff)

lemma HasPrefix_drop_split:
  assumes "HasPrefix (drop i s) p"
  shows "s = take i s @ p @ drop (i + length p) s"
proof -
  from assms obtain r where r: "drop i s = p @ r" by (auto simp: HasPrefix_iff)
  have "drop (i + length p) s = drop (length p) (drop i s)" by (simp add: add.commute)
  also have "\<dots> = r" using r by simp
  finally have "drop i s = p @ drop (i + length p) s" using r by simp
  then have "take i s @ drop i s = take i s @ p @ drop (i + length p) s" by simp
  then show ?thesis by simp
qed

lemma HasPrefix_take_iff: "HasPrefix (take m s) p \<longleftrightarrow> HasPrefix s p \<and> length p \<le> m"
proof (induction s p arbitrary: m rule: HasPrefix.induct)
  case (1 s)
  show ?case by simp
next
  case (2 p ps)
  show ?case by simp
next
  case (3 c s p ps)
  show ?case using 3 [of "m - 1"] by (cases m) auto
qed

lemma HasPrefix_drop_take:
  assumes "p \<noteq> []"
  shows "HasPrefix (drop j (take k s)) p \<longleftrightarrow> HasPrefix (drop j s) p \<and> j + length p \<le> k"
proof -
  have "drop j (take k s) = take (k - j) (drop j s)" by (simp add: drop_take)
  then show ?thesis
  proof (cases "j \<le> k")
    case True
    then show ?thesis using \<open>drop j (take k s) = take (k - j) (drop j s)\<close>
      by (auto simp: HasPrefix_take_iff)
  next
    case False
    then have "drop j (take k s) = []" by simp
    then show ?thesis using False assms by (cases p) auto
  qed
qed

lemma Index_absentI:
  assumes "\<And>j. \<not> HasPrefix (drop j s) p"
  shows "Index s p = - 1"
  using assms Index_found [of s p] by blast

lemma Index_take_short:
  assumes "p \<noteq> []" and "Index s p = - 1 \<or> int k < Index s p + len p"
  shows "Index (take k s) p = - 1"
proof (rule Index_absentI)
  fix j
  show "\<not> HasPrefix (drop j (take k s)) p"
  proof
    assume h: "HasPrefix (drop j (take k s)) p"
    then have hp: "HasPrefix (drop j s) p" and jk: "j + length p \<le> k"
      by (simp_all add: HasPrefix_drop_take [OF assms(1)])
    from assms(2) show False
    proof
      assume "Index s p = - 1"
      then show False using hp Index_none by blast
    next
      assume "int k < Index s p + len p"
      then have "int j < Index s p" using jk by (simp add: len_def)
      then show False using hp Index_first by blast
    qed
  qed
qed

lemma Index_take_long:
  assumes "Index s p \<noteq> - 1" and "nat (Index s p) + length p \<le> k" and "p \<noteq> []"
  shows "Index (take k s) p = Index s p"
proof -
  let ?i = "nat (Index s p)"
  have ge: "0 \<le> Index s p" using assms(1) Index_ge [of s p] by linarith
  have a: "HasPrefix (drop ?i (take k s)) p"
    using Index_found [OF assms(1)] assms(2) by (simp add: HasPrefix_drop_take [OF assms(3)])
  have il: "?i + length p \<le> length s"
    using Index_range [of s p] assms(1) by (auto simp: len_def)
  have b: "?i \<le> length (take k s)" using assms(2) il by simp
  have c: "\<And>j. j < ?i \<Longrightarrow> \<not> HasPrefix (drop j (take k s)) p"
  proof -
    fix j assume "j < ?i"
    then have "int j < Index s p" by linarith
    then have "\<not> HasPrefix (drop j s) p" by (rule Index_first)
    then show "\<not> HasPrefix (drop j (take k s)) p" by (simp add: HasPrefix_drop_take [OF assms(3)])
  qed
  have "Index (take k s) p = int ?i" by (rule Index_eqI [OF a b c])
  then show ?thesis using ge by simp
qed

lemma Count_take_short:
  assumes "p \<noteq> []" and "Index s p = - 1 \<or> int k < Index s p + len p"
  shows "Count (take k s) p = 0"
  using Count_none [OF assms(1) Index_take_short [OF assms]] .

lemma fence_length [simp]: "length fence = 3" "fence \<noteq> []"
  by (simp_all add: fence_def)

lemma Count_one_Index:
  assumes "Count t fence = 1"
  shows "0 \<le> Index t fence \<and> Index t fence \<le> len t"
proof -
  have "Index t fence \<noteq> - 1" using assms Count_zero_iff [of fence t] by auto
  then show ?thesis using Index_range [of t fence] by (auto simp: len_def)
qed

lemma Count_two_Index:
  assumes "2 \<le> Count t fence"
  shows "0 \<le> Index t fence \<and> Index t fence + 3 \<le> len t
    \<and> 0 \<le> Index (drop (nat (Index t fence + 3)) t) fence
    \<and> Index (drop (nat (Index t fence + 3)) t) fence + 3 \<le> len (drop (nat (Index t fence + 3)) t)"
proof -
  let ?i = "Index t fence"
  let ?u = "drop (nat (?i + 3)) t"
  have ne: "?i \<noteq> - 1" using assms Count_zero_iff [of fence t] by auto
  then have r: "0 \<le> ?i \<and> ?i + 3 \<le> len t" using Index_range [of t fence] by (auto simp: len_def)
  have n: "nat (?i + 3) = nat ?i + length fence" using r by (simp add: nat_add_distrib)
  have "Count t fence = 1 + Count ?u fence" using Count_step [of fence t] ne n by simp
  then have "Count ?u fence \<noteq> 0" using assms by linarith
  then have "Index ?u fence \<noteq> - 1" using Count_zero_iff [of fence ?u] by auto
  then have "0 \<le> Index ?u fence \<and> Index ?u fence + 3 \<le> len ?u"
    using Index_range [of ?u fence] by (auto simp: len_def)
  then show ?thesis using r by simp
qed

section \<open>What \<open>splitResponse\<close> returns\<close>

text \<open>
  No slice expression of \<open>splitResponse\<close> is out of range, and the index it returns is
  within the text. The only panic left is the one of the regular expression call, which
  happens exactly when the library rejects the pending text as a pattern.
\<close>

lemma splitTail_range:
  assumes "splitTail rx t = Inr i"
  shows "0 \<le> i \<and> i \<le> len t"
proof -
  note lb = LastIndexByte_range [of t newline] LastIndexByte_range [of t backquote]
  show ?thesis
    using assms lb LastIndexAny_range [of t "''.?!''"]
      LastIndexAny_range [of "take (nat (LastIndexByte t backquote)) t" "''.?!''"]
    by (auto simp: splitTail_def slice_to_def slice_from_def len_def Let_def
        split: if_splits sum.splits)
qed

lemma splitTail_no_slice_panic: "splitTail rx t \<noteq> Inl SliceBoundsOutOfRange"
proof -
  have odd: "0 \<le> LastIndexByte t backquote" if "Count t [backquote] AND 1 = 1"
  proof -
    have "Count t [backquote] \<noteq> 0" using that by auto
    then have "backquote \<in> set t" by (rule Count_pos_mem)
    then have "LastIndexByte t backquote \<noteq> - 1" by (simp add: LastIndexByte_none_iff)
    then show ?thesis using LastIndexByte_range [of t backquote] by linarith
  qed
  show ?thesis
    using odd LastIndexByte_range [of t backquote]
    by (auto simp: splitTail_def slice_to_def slice_from_def len_def Let_def
        split: if_splits sum.splits)
qed

lemma splitResponse_no_slice_panic: "splitResponse rx t \<noteq> Inl SliceBoundsOutOfRange"
proof (cases "Count t fence = 1")
  case True
  then show ?thesis
    using Count_one_Index [OF True] splitTail_no_slice_panic
    by (simp add: splitResponse_def slice_to_def)
next
  case False
  show ?thesis
  proof (cases "2 \<le> Count t fence")
    case True
    then show ?thesis using False Count_two_Index [OF True]
      by (simp add: splitResponse_def slice_from_def Let_def)
  next
    case False
    then show ?thesis using \<open>Count t fence \<noteq> 1\<close> splitTail_no_slice_panic
      by (simp add: splitResponse_def)
  qed
qed

lemma splitResponse_range:
  assumes "splitResponse rx t = Inr i"
  shows "0 \<le> i \<and> i \<le> len t"
proof (cases "Count t fence = 1")
  case True
  have ix: "0 \<le> Index t fence \<and> Index t fence \<le> len t" by (rule Count_one_Index [OF True])
  then have "splitTail rx (take (nat (Index t fence)) t) = Inr i"
    using assms True by (simp add: splitResponse_def slice_to_def)
  then have "0 \<le> i \<and> i \<le> len (take (nat (Index t fence)) t)" by (rule splitTail_range)
  then show ?thesis using ix by (auto simp: len_def)
next
  case False
  show ?thesis
  proof (cases "2 \<le> Count t fence")
    case True
    then show ?thesis using assms False Count_two_Index [OF True]
      by (auto simp: splitResponse_def slice_from_def Let_def len_def)
  next
    case False
    then have "splitTail rx t = Inr i" using assms \<open>Count t fence \<noteq> 1\<close>
      by (simp add: splitResponse_def)
    then show ?thesis by (rule splitTail_range)
  qed
qed

lemma splitTail_panic:
  assumes "splitTail rx t = Inl p"
  shows "\<exists>err. p = PanicError err \<and> rx t enum_pattern = Inl err"
proof -
  have "p \<noteq> SliceBoundsOutOfRange"
    using assms splitTail_no_slice_panic [of rx t] by auto
  then show ?thesis
    using assms
    by (auto simp: splitTail_def slice_to_def slice_from_def Let_def split: if_splits sum.splits)
qed

lemma splitResponse_panic:
  assumes "splitResponse rx t = Inl p"
  shows "\<exists>err t'. p = PanicError err \<and> rx t' enum_pattern = Inl err"
proof (cases "Count t fence = 1")
  case True
  have "0 \<le> Index t fence \<and> Index t fence \<le> len t" by (rule Count_one_Index [OF True])
  then have "splitTail rx (take (nat (Index t fence)) t) = Inl p"
    using assms True by (simp add: splitResponse_def slice_to_def)
  then show ?thesis using splitTail_panic by blast
next
  case False
  show ?thesis
  proof (cases "2 \<le> Count t fence")
    case True
    then show ?thesis using assms False Count_two_Index [OF True]
      by (simp add: splitResponse_def slice_from_def Let_def)
  next
    case False
    then have "splitTail rx t = Inl p" using assms \<open>Count t fence \<noteq> 1\<close>
      by (simp add: splitResponse_def)
    then show ?thesis using splitTail_panic by blast
  qed
qed

text \<open>
  The text sent holds no triple backquote or exactly two of them: a chunk never ends
  inside a fenced block.
\<close>

lemma splitResponse_chunk_fences:
  assumes "splitResponse rx t = Inr i"
  shows "Count (take (nat i) t) fence = 0 \<or> Count (take (nat i) t) fence = 2"
proof (cases "Count t fence = 1")
  case True
  let ?I = "Index t fence"
  have ix: "0 \<le> ?I \<and> ?I \<le> len t" by (rule Count_one_Index [OF True])
  then have st: "splitTail rx (take (nat ?I) t) = Inr i"
    using assms True by (simp add: splitResponse_def slice_to_def)
  have "0 \<le> i \<and> i \<le> len (take (nat ?I) t)" by (rule splitTail_range [OF st])
  then have "i \<le> ?I" using ix by (auto simp: len_def)
  then have "int (nat i) < ?I + len fence" using ix by (simp add: len_def)
  then show ?thesis using Count_take_short [of fence t "nat i"] by simp
next
  case False
  show ?thesis
  proof (cases "2 \<le> Count t fence")
    case True
    let ?I = "Index t fence"
    let ?u = "drop (nat (?I + 3)) t"
    let ?J = "Index ?u fence"
    note r = Count_two_Index [OF True]
    have i3: "nat (?I + 3) = nat ?I + 3" using r by (simp add: nat_add_distrib)
    have i: "i = ?J + (?I + 3) + 3"
      using assms False True r by (simp add: splitResponse_def slice_from_def Let_def)
    then have ni: "nat i = nat ?I + 3 + (nat ?J + 3)" using r by linarith
    let ?c = "take (nat i) t"
    have ne: "?I \<noteq> - 1" using r by linarith
    have "Index ?c fence = ?I"
      using Index_take_long [OF ne, of "nat i"] ni by simp
    then have s1: "Count ?c fence = 1 + Count (drop (nat ?I + 3) ?c) fence"
      using Count_step [of fence ?c] ne by simp
    have d: "drop (nat ?I + 3) ?c = take (nat ?J + 3) ?u"
      using ni i3 by (simp add: drop_take ac_simps)
    have neJ: "?J \<noteq> - 1" using r by linarith
    have ij: "Index (take (nat ?J + 3) ?u) fence = ?J"
      using Index_take_long [OF neJ, of "nat ?J + 3"] by simp
    have s2: "Count (take (nat ?J + 3) ?u) fence
        = 1 + Count (drop (nat ?J + 3) (take (nat ?J + 3) ?u)) fence"
      using Count_step [of fence "take (nat ?J + 3) ?u"] ij neJ by simp
    have "Count [] fence = 0" by (simp add: Count.simps)
    then have "Count (drop (nat ?J + 3) (take (nat ?J + 3) ?u)) fence = 0" by simp
    then show ?thesis using s1 s2 d by simp
  next
    case False
    then have z: "Count t fence = 0"
      using \<open>Count t fence \<noteq> 1\<close> Count_nonneg [of t fence] by linarith
    then have "Index t fence = - 1" using Count_zero_iff [of fence t] by simp
    then show ?thesis using Count_take_short [of fence t "nat i"] by simp
  qed
qed

text \<open>The definitions unfolded to run \<open>splitResponse\<close> on a concrete text.\<close>

lemmas eval_defs = splitResponse_def splitTail_def slice_to_def slice_from_def len_def Let_def
  fence_def backquote_def newline_def backslash_def enum_pattern_def regexp_MatchString_def
  literal_or_dot_def special_def Count.simps and_one_eq

section \<open>The fenced block first\<close>

text \<open>The example of the specification: a fenced block followed by \<open>rest\<close>.\<close>

definition example_fenced :: string where
  "example_fenced = fence @ ''python'' @ [newline] @ ''code'' @ [newline] @ fence @ ''rest''"

lemma example_fenced_count: "Count example_fenced fence = 2"
  by (simp add: example_fenced_def fence_def backquote_def newline_def Count.simps Let_def)

text \<open>
  C2. When the pending text holds two or more triple backquotes (counted as
  \<open>strings.Count\<close> does, without overlap), it reads \<open>a ``` b ``` rest\<close> where the first
  marker of the text is the one after \<open>a\<close> and the first marker after it is the one
  after \<open>b\<close>, and \<open>splitResponse\<close> returns the index just past that second marker,
  whatever the rest of the text and whatever the regular expression library does: the
  chunk sent is \<open>a ``` b ```\<close>, the first complete fenced block with what precedes it.
\<close>

theorem splitResponse_second_fence:
  assumes "2 \<le> Count t fence"
  shows "\<exists>a b rest. t = a @ fence @ b @ fence @ rest
           \<and> Index t fence = len a
           \<and> Index (b @ fence @ rest) fence = len b
           \<and> splitResponse MatchString t = Inr (len (a @ fence @ b @ fence))"
proof -
  let ?i = "Index t fence"
  let ?u = "drop (nat (?i + 3)) t"
  let ?j = "Index ?u fence"
  let ?a = "take (nat ?i) t"
  let ?b = "take (nat ?j) ?u"
  let ?rest = "drop (nat ?j + 3) ?u"
  note r = Count_two_Index [OF assms]
  have i3: "nat (?i + 3) = nat ?i + 3" using r by (simp add: nat_add_distrib)
  have "HasPrefix (drop (nat ?i) t) fence" using r Index_found [of t fence] by auto
  then have t: "t = ?a @ fence @ ?u" using HasPrefix_drop_split [of "nat ?i" t fence] i3 by simp
  have "HasPrefix (drop (nat ?j) ?u) fence" using r Index_found [of ?u fence] by auto
  then have u: "?u = ?b @ fence @ ?rest" using HasPrefix_drop_split [of "nat ?j" ?u fence] by simp
  have la: "len ?a = ?i" using r by (auto simp: len_def)
  have lb: "len ?b = ?j" using r by (auto simp: len_def)
  have res: "splitResponse MatchString t = Inr (?j + (?i + 3) + 3)"
    using assms r by (simp add: splitResponse_def slice_from_def Let_def)
  have l: "len (?a @ fence @ ?b @ fence) = ?j + (?i + 3) + 3"
    using la lb by (simp add: len_def)
  have "t = ?a @ fence @ ?b @ fence @ ?rest" using t u by simp
  moreover have "Index t fence = len ?a" using la by simp
  moreover have "Index (?b @ fence @ ?rest) fence = len ?b" using lb u by simp
  moreover have "splitResponse MatchString t = Inr (len (?a @ fence @ ?b @ fence))"
    using res l by simp
  ultimately show ?thesis by blast
qed

text \<open>On the example the chunk is the fenced block and \<open>rest\<close> is kept.\<close>

theorem splitResponse_second_fence_witness:
  "2 \<le> Count example_fenced fence
   \<and> (\<exists>a b rest. example_fenced = a @ fence @ b @ fence @ rest
           \<and> Index example_fenced fence = len a
           \<and> Index (b @ fence @ rest) fence = len b
           \<and> splitResponse regexp_MatchString example_fenced = Inr (len (a @ fence @ b @ fence)))
   \<and> splitResponse regexp_MatchString example_fenced = Inr 18
   \<and> take 18 example_fenced = fence @ ''python'' @ [newline] @ ''code'' @ [newline] @ fence
   \<and> drop 18 example_fenced = ''rest''"
proof -
  have c: "2 \<le> Count example_fenced fence" by (simp add: example_fenced_count)
  have v: "splitResponse regexp_MatchString example_fenced = Inr 18"
    by (simp add: splitResponse_def example_fenced_count slice_from_def len_def Let_def)
       (simp add: example_fenced_def fence_def backquote_def newline_def)
  have td: "take 18 example_fenced = fence @ ''python'' @ [newline] @ ''code'' @ [newline] @ fence
     \<and> drop 18 example_fenced = ''rest''"
    by (simp add: example_fenced_def fence_def)
  show ?thesis
    using c splitResponse_second_fence [OF c, of regexp_MatchString] v td by blast
qed

section \<open>The pending text used as a pattern\<close>

text \<open>A pending reply with an opening parenthesis not closed yet.\<close>

definition example_unclosed :: string where
  "example_unclosed = ''Hello (world''"

text \<open>
  C10. \<open>splitResponse\<close> is claimed to return an index for every text. The call
  \<open>regexp.MatchString(t, `^\d+\. .*`)\<close> gives the pending text as the pattern to compile:
  on \<open>Hello (world\<close> the compilation fails with "missing closing )" and the function
  panics instead of returning. (When it does return, the index is within the text:
  \<open>splitResponse_range\<close>.)
\<close>

theorem splitResponse_panics_on_unclosed_paren:
  "splitResponse regexp_MatchString example_unclosed = Inl (PanicError ErrMissingParen)"
  by (simp add: example_unclosed_def eval_defs)

section \<open>Inline code spans\<close>

text \<open>A pending reply whose only punctuation is inside a closed inline code span.\<close>

definition example_inline :: string where
  "example_inline = [backquote] @ ''foo.bar'' @ [backquote] @ '' is ok''"

text \<open>
  C3. A chunk is claimed never to cut an inline code span. The source's comment says the
  search of the punctuation starts after the last backquote, but \<open>start\<close> stays 0 and
  the text is only cut when the number of backquotes is odd: on \<open>`foo.bar` is ok\<close> the
  last punctuation is the dot inside the span, the function returns 5 and the chunk
  \<open>`foo.\<close> holds one backquote. (The other half of the claim holds: a chunk holds no
  triple backquote or two, \<open>splitResponse_chunk_fences\<close>.)
\<close>

theorem splitResponse_cuts_inline_span:
  "splitResponse regexp_MatchString example_inline = Inr 5
   \<and> take 5 example_inline = [backquote] @ ''foo.''
   \<and> Count (take 5 example_inline) [backquote] = 1"
  by (simp add: example_inline_def eval_defs)

section \<open>List items\<close>

text \<open>A bulleted item holding a complete fenced block, and no newline.\<close>

definition example_bullet_fenced :: string where
  "example_bullet_fenced = ''- '' @ fence @ ''x'' @ fence"

text \<open>
  C4, as stated, fails: a text that begins a bulleted item and holds no newline is
  claimed to give 0, but the fenced block comes first, and this one gives 9.
\<close>

theorem splitResponse_bullet_fence_counterexample:
  "HasPrefix example_bullet_fenced ''- '' \<and> newline \<notin> set example_bullet_fenced
   \<and> splitResponse regexp_MatchString example_bullet_fenced = Inr 9"
  by (simp add: example_bullet_fenced_def eval_defs)

lemma splitTail_bullet:
  assumes "HasPrefix t ''- '' \<or> HasPrefix t ''* ''" and "newline \<notin> set t"
  shows "splitTail MatchString t = Inr 0"
  using assms LastIndexByte_absent [of newline t] by (auto simp: splitTail_def)

lemma bullet_Index:
  assumes "HasPrefix t [x, CHR '' '']" and "x \<noteq> backquote" and "Index t fence \<noteq> - 1"
  shows "HasPrefix (take (nat (Index t fence)) t) [x, CHR '' '']"
proof -
  from assms(1) obtain r where t: "t = x # CHR '' '' # r" by (auto simp: HasPrefix_iff)
  have sp: "CHR '' '' \<noteq> backquote" by (simp add: backquote_def)
  have ne: "Index r fence \<noteq> - 1"
    using assms(3) assms(2) sp by (auto simp: t fence_def Let_def split: if_splits)
  then have ge: "0 \<le> Index r fence" using Index_ge [of r fence] by linarith
  have "Index t fence = Index r fence + 2"
    using assms(2) sp ne ge by (simp add: t fence_def Let_def)
  then have "nat (Index t fence) = Suc (Suc (nat (Index r fence)))" using ge by simp
  then show ?thesis by (simp add: t)
qed

text \<open>
  C4, amended. For every pending text that begins with \<open>"- "\<close> or \<open>"* "\<close>, holds no
  newline and fewer than two triple backquotes, \<open>splitResponse\<close> returns 0, whatever the
  length of the text and whatever the regular expression library does (it is not
  called).
\<close>

theorem splitResponse_bullet_waits:
  assumes "HasPrefix t ''- '' \<or> HasPrefix t ''* ''"
    and "newline \<notin> set t"
    and "Count t fence < 2"
  shows "splitResponse MatchString t = Inr 0"
proof (cases "Count t fence = 1")
  case True
  let ?t' = "take (nat (Index t fence)) t"
  have ix: "0 \<le> Index t fence \<and> Index t fence \<le> len t" by (rule Count_one_Index [OF True])
  then have ne: "Index t fence \<noteq> - 1" by linarith
  have p: "HasPrefix ?t' ''- '' \<or> HasPrefix ?t' ''* ''"
    using assms(1) bullet_Index [OF _ _ ne, of "CHR ''-''"] bullet_Index [OF _ _ ne, of "CHR ''*''"]
    by (auto simp: backquote_def)
  have n: "newline \<notin> set ?t'" using assms(2) by (auto dest: in_set_takeD)
  have "splitResponse MatchString t = splitTail MatchString ?t'"
    using True ix by (simp add: splitResponse_def slice_to_def)
  then show ?thesis using splitTail_bullet [OF p n] by simp
next
  case False
  then have "splitResponse MatchString t = splitTail MatchString t"
    using assms(3) by (simp add: splitResponse_def)
  then show ?thesis using splitTail_bullet [OF assms(1) assms(2)] by simp
qed

text \<open>The example of the specification, \<open>- item one\<close>.\<close>

definition example_item :: string where
  "example_item = ''- item one''"

theorem splitResponse_bullet_waits_witness:
  "(HasPrefix example_item ''- '' \<or> HasPrefix example_item ''* '')
   \<and> newline \<notin> set example_item \<and> Count example_item fence < 2
   \<and> splitResponse regexp_MatchString example_item = Inr 0"
proof -
  have a: "HasPrefix example_item ''- '' \<or> HasPrefix example_item ''* ''"
    by (simp add: example_item_def)
  have b: "newline \<notin> set example_item" by (simp add: example_item_def newline_def)
  have c: "Count example_item fence < 2"
    by (simp add: example_item_def fence_def backquote_def Count.simps)
  show ?thesis using a b c splitResponse_bullet_waits [OF a b c, of regexp_MatchString] by blast
qed

text \<open>
  A numbered item is not recognised: the literal \<open>^\d+\. .*\<close> is the text searched, not
  the pattern, and on \<open>1. item number one\<close> the function returns 2, after the dot of the
  number.
\<close>

definition example_numbered :: string where
  "example_numbered = ''1. item number one''"

lemma splitResponse_numbered_item:
  "splitResponse regexp_MatchString example_numbered = Inr 2"
  by (simp add: example_numbered_def eval_defs)

section \<open>Streaming a reply: \<open>handlePrompt\<close>\<close>

text \<open>
  The conversation kept by the memory, the request taken from the queue, and the calls
  made to the platform, in order. A call to post a message records the channel, the
  content and the message replied to.
\<close>

datatype role = System | User | Assistant

record Message =
  Role :: role
  Content :: string

record msgReq =
  msg :: string
  authorID :: string
  channelID :: string
  guildID :: string
  replyToID :: string

datatype call =
    ChannelMessageSendComplex string string string
  | ChannelMessageSend string string
  | ChannelTyping string

text \<open>
  What the goroutine of \<open>handlePrompt\<close> receives in its \<open>select\<close> before it sees the
  channel \<open>words\<close> closed: a word of the reply, or a tick of the 3 second ticker. The list
  is one interleaving of the two; its end is the closure of the channel.
\<close>

datatype event = Word string | Tick

text \<open>
  The variables of the goroutine: \<open>text\<close>, the reply sent so far (named \<open>text_sent\<close>
  here), \<open>pending\<close>, what is received and not sent yet, and \<open>replyToID\<close>, the message
  the next post replies to (named \<open>anchor\<close>, the request has a field of that name), with
  the calls made to the platform so far.
\<close>

record stream =
  text_sent :: string
  pending :: string
  anchor :: string
  calls :: "call list"

text \<open>The branch \<open>!ok\<close>: the channel is closed. What is pending is posted, whatever
  \<open>splitResponse\<close> would say of it.\<close>

definition closeStream :: "msgReq \<Rightarrow> stream \<Rightarrow> stream" where
  "closeStream req st =
     (if pending st \<noteq> []
      then st\<lparr>text_sent := text_sent st @ pending st,
              calls := calls st @ [ChannelMessageSendComplex (channelID req) (pending st) (anchor st)]\<rparr>
      else st)"

text \<open>
  The branch of the ticker. \<open>platform n\<close> is the answer of the platform to the call
  number \<open>n\<close> of the request: the id of the message posted, or nothing when the post
  failed (the error is logged and the reply keeps its anchor).
\<close>

definition tickStream ::
  "(string \<Rightarrow> string \<Rightarrow> regexp_error + bool) \<Rightarrow> (nat \<Rightarrow> string option) \<Rightarrow> msgReq \<Rightarrow> stream
     \<Rightarrow> panic + stream" where
  "tickStream MatchString platform req st =
     (case splitResponse MatchString (pending st) of
        Inl p \<Rightarrow> Inl p
      | Inr i \<Rightarrow>
          if i = 0 then Inr st
          else
            (case slice_to (pending st) i of
               Inl p \<Rightarrow> Inl p
             | Inr chunk \<Rightarrow>
                 (case slice_from (pending st) i of
                    Inl p \<Rightarrow> Inl p
                  | Inr rest \<Rightarrow>
                      Inr (st\<lparr>text_sent := text_sent st @ chunk,
                              pending := rest,
                              anchor := (case platform (length (calls st)) of
                                           Some msgID \<Rightarrow> msgID | None \<Rightarrow> anchor st),
                              calls := calls st @
                                [ChannelMessageSendComplex (channelID req) chunk (anchor st),
                                 ChannelTyping (channelID req)]\<rparr>))))"

text \<open>The loop of the goroutine, which ends when the channel is closed or on a panic.\<close>

fun streamLoop ::
  "(string \<Rightarrow> string \<Rightarrow> regexp_error + bool) \<Rightarrow> (nat \<Rightarrow> string option) \<Rightarrow> msgReq \<Rightarrow> event list
     \<Rightarrow> stream \<Rightarrow> panic + stream" where
  "streamLoop MatchString platform req [] st = Inr (closeStream req st)"
| "streamLoop MatchString platform req (Word w # es) st =
     streamLoop MatchString platform req es (st\<lparr>pending := pending st @ w\<rparr>)"
| "streamLoop MatchString platform req (Tick # es) st =
     (case tickStream MatchString platform req st of
        Inl p \<Rightarrow> Inl p
      | Inr st' \<Rightarrow> streamLoop MatchString platform req es st')"

text \<open>
  \<open>handlePrompt\<close>: the history gets the system prompt when empty, then the user's
  message; the stream is consumed; the assistant's turn is appended at the closure.
  \<open>err\<close> is the error of \<open>PromptStreaming\<close>, reported by a message after the stream.
\<close>

definition handlePrompt ::
  "(string \<Rightarrow> string \<Rightarrow> regexp_error + bool) \<Rightarrow> (nat \<Rightarrow> string option) \<Rightarrow> string \<Rightarrow> Message list
     \<Rightarrow> msgReq \<Rightarrow> event list \<Rightarrow> string option \<Rightarrow> panic + Message list \<times> call list" where
  "handlePrompt MatchString platform systemPrompt history req events err =
     (let messages = (if history = [] then [\<lparr>Role = System, Content = systemPrompt\<rparr>] else history);
          messages = messages @ [\<lparr>Role = User, Content = msg req\<rparr>]
      in case streamLoop MatchString platform req events
                \<lparr>text_sent = [], pending = [], anchor = replyToID req, calls = []\<rparr> of
           Inl p \<Rightarrow> Inl p
         | Inr st \<Rightarrow>
             Inr (messages @ [\<lparr>Role = Assistant, Content = text_sent st\<rparr>],
                  calls st @
                    (case err of
                       None \<Rightarrow> []
                     | Some e \<Rightarrow> [ChannelMessageSend (channelID req) (''Prompt generation failed: '' @ e)])))"

text \<open>The words of a stream, concatenated, and the contents of the messages posted.\<close>

fun words :: "event list \<Rightarrow> string" where
  "words [] = []"
| "words (Word w # es) = w @ words es"
| "words (Tick # es) = words es"

fun contents :: "call list \<Rightarrow> string" where
  "contents [] = []"
| "contents (ChannelMessageSendComplex ch c r # cs) = c @ contents cs"
| "contents (ChannelMessageSend ch c # cs) = contents cs"
| "contents (ChannelTyping ch # cs) = contents cs"

lemma contents_append: "contents (xs @ ys) = contents xs @ contents ys"
  by (induction xs rule: contents.induct) simp_all

lemma tickStream_keeps:
  assumes "tickStream rx pf req st = Inr st'"
  shows "text_sent st' @ pending st' = text_sent st @ pending st
       \<and> contents (calls st') @ pending st' = contents (calls st) @ pending st"
proof (cases "splitResponse rx (pending st)")
  case (Inl p)
  then show ?thesis using assms by (simp add: tickStream_def)
next
  case (Inr i)
  note r = splitResponse_range [OF Inr]
  show ?thesis
  proof (cases "i = 0")
    case True
    then show ?thesis using assms Inr by (simp add: tickStream_def)
  next
    case False
    then have "st' = st\<lparr>text_sent := text_sent st @ take (nat i) (pending st),
                        pending := drop (nat i) (pending st),
                        anchor := (case pf (length (calls st)) of
                                     Some msgID \<Rightarrow> msgID | None \<Rightarrow> anchor st),
                        calls := calls st @
                          [ChannelMessageSendComplex (channelID req) (take (nat i) (pending st)) (anchor st),
                           ChannelTyping (channelID req)]\<rparr>"
      using assms Inr r by (simp add: tickStream_def slice_to_def slice_from_def)
    then show ?thesis by (simp add: contents_append)
  qed
qed

lemma closeStream_all:
  "text_sent (closeStream req st) = text_sent st @ pending st
   \<and> contents (calls (closeStream req st)) = contents (calls st) @ pending st"
  by (simp add: closeStream_def contents_append)

lemma streamLoop_concat:
  assumes "streamLoop rx pf req es st = Inr st'"
  shows "text_sent st' = text_sent st @ pending st @ words es
       \<and> contents (calls st') = contents (calls st) @ pending st @ words es"
  using assms
proof (induction es arbitrary: st)
  case Nil
  then show ?case using closeStream_all [of req st] by auto
next
  case (Cons e es)
  show ?case
  proof (cases e)
    case (Word w)
    then show ?thesis using Cons.IH [of "st\<lparr>pending := pending st @ w\<rparr>"] Cons.prems by simp
  next
    case Tick
    then obtain st1 where t: "tickStream rx pf req st = Inr st1"
      and l: "streamLoop rx pf req es st1 = Inr st'"
      using Cons.prems by (auto split: sum.splits)
    have a: "text_sent st1 @ pending st1 = text_sent st @ pending st"
      and b: "contents (calls st1) @ pending st1 = contents (calls st) @ pending st"
      using tickStream_keeps [OF t] by simp_all
    have "text_sent st' = (text_sent st1 @ pending st1) @ words es
       \<and> contents (calls st') = (contents (calls st1) @ pending st1) @ words es"
      using Cons.IH [OF l] by simp
    then show ?thesis using a b Tick by simp
  qed
qed

text \<open>
  When the loop reaches the closure, the text remembered and the contents posted are
  each the whole stream; it reaches it whenever the library compiles every pending text.
\<close>

lemma streamLoop_completes:
  assumes "\<And>p. \<exists>b. rx p enum_pattern = Inr b"
  shows "\<exists>st'. streamLoop rx pf req es st = Inr st'"
proof (induction es arbitrary: st)
  case Nil
  show ?case by simp
next
  case (Cons e es)
  show ?case
  proof (cases e)
    case (Word w)
    then show ?thesis using Cons.IH by simp
  next
    case Tick
    have "\<exists>i. splitResponse rx (pending st) = Inr i"
    proof (cases "splitResponse rx (pending st)")
      case (Inl p)
      then obtain err t' where "rx t' enum_pattern = Inl err" using splitResponse_panic by blast
      then show ?thesis using assms [of t'] by auto
    next
      case (Inr i)
      then show ?thesis by blast
    qed
    then obtain i where i: "splitResponse rx (pending st) = Inr i" by blast
    note r = splitResponse_range [OF i]
    have "\<exists>st1. tickStream rx pf req st = Inr st1"
      using i r by (simp add: tickStream_def slice_to_def slice_from_def)
    then show ?thesis using Tick Cons.IH by auto
  qed
qed

lemma closeStream_one_post:
  "pending st \<noteq> [] \<Longrightarrow>
     calls (closeStream req st)
       = calls st @ [ChannelMessageSendComplex (channelID req) (pending st) (anchor st)]"
  by (simp add: closeStream_def)

lemma handlePrompt_delivers:
  assumes "handlePrompt rx pf sys history req es None = Inr (messages, posted)"
  shows "last messages = \<lparr>Role = Assistant, Content = words es\<rparr> \<and> contents posted = words es"
proof -
  let ?st0 = "\<lparr>text_sent = [], pending = [], anchor = replyToID req, calls = []\<rparr>"
  obtain st where l: "streamLoop rx pf req es ?st0 = Inr st"
    and m: "last messages = \<lparr>Role = Assistant, Content = text_sent st\<rparr>"
    and p: "posted = calls st"
    using assms by (auto simp: handlePrompt_def Let_def split: sum.splits)
  show ?thesis using streamLoop_concat [OF l] m p by simp
qed

text \<open>A stream of two words and a tick, and a platform that accepts every post.\<close>

definition example_stream :: "event list" where
  "example_stream = [Word ''Hello '', Word ''(world'', Tick]"

definition example_req :: msgReq where
  "example_req = \<lparr>msg = ''hi'', authorID = ''7'', channelID = ''c'', guildID = [], replyToID = ''m1''\<rparr>"

definition example_platform :: "nat \<Rightarrow> string option" where
  "example_platform n = Some ''m2''"

text \<open>
  C1. Every stream is claimed to be delivered whole, with one last post at the closure
  and the assistant's turn remembered. The tick of this stream finds \<open>Hello (world\<close>
  pending and calls \<open>splitResponse\<close>, which panics: nothing is posted and no turn is
  appended. (On a stream that reaches the closure the claim holds:
  \<open>streamLoop_concat\<close>.)
\<close>

theorem handlePrompt_panics_on_tick:
  "handlePrompt regexp_MatchString example_platform ''sys'' [] example_req example_stream None
     = Inl (PanicError ErrMissingParen)"
  by (simp add: handlePrompt_def example_stream_def example_req_def tickStream_def eval_defs)

section \<open>Request queues and workers\<close>

text \<open>
  \<open>strings.HasSuffix\<close>, \<open>strings.Contains\<close>, and \<open>strings.ReplaceAll(s, old, "")\<close>, the only
  replacement the program makes: the instances of \<open>old\<close> are removed, found one after the
  other as \<open>strings.Count\<close> finds them (an empty \<open>old\<close> leaves \<open>s\<close> as it is).
\<close>

definition HasSuffix :: "string \<Rightarrow> string \<Rightarrow> bool" where
  "HasSuffix s suffix = HasPrefix (rev s) (rev suffix)"

definition Contains :: "string \<Rightarrow> string \<Rightarrow> bool" where
  "Contains s substr = (Index s substr \<ge> 0)"

function ReplaceAll :: "string \<Rightarrow> string \<Rightarrow> string" where
  "ReplaceAll s old =
     (if old = [] then s
      else (let i = Index s old in
            if i = - 1 then s
            else take (nat i) s @ ReplaceAll (drop (nat i + length old) s) old))"
  by pat_completeness auto
termination
proof (relation "measure (\<lambda>(s, old). length s)")
  show "wf (measure (\<lambda>(s, old). length s))" by simp
next
  fix s old :: string and i :: int
  assume ne: "old \<noteq> []" and i: "i = Index s old" and found: "i \<noteq> - 1"
  have "s \<noteq> []"
    using ne i found by (cases s) auto
  then show "((drop (nat i + length old) s, old), (s, old)) \<in> measure (\<lambda>(s, old). length s)"
    using ne by (cases s) auto
qed

declare ReplaceAll.simps [simp del]

text \<open>
  \<open>strings.TrimSpace\<close> removes the leading and the trailing white space, as Unicode
  defines it. On bytes: the six ASCII spaces, and the UTF-8 encodings of U+0085, U+00A0,
  U+1680, U+2000 to U+200A, U+2028, U+2029, U+202F, U+205F and U+3000. \<open>trimLeft\<close> removes
  the leading ones; the trailing ones are the leading ones of the reversed text.
\<close>

definition white_space :: "string list" where
  "white_space =
     [[CHR 0x09], [CHR 0x0A], [CHR 0x0B], [CHR 0x0C], [CHR 0x0D], [CHR 0x20],
      [CHR 0xC2, CHR 0x85], [CHR 0xC2, CHR 0xA0], [CHR 0xE1, CHR 0x9A, CHR 0x80]]
     @ map (\<lambda>b. [CHR 0xE2, CHR 0x80, b])
         [CHR 0x80, CHR 0x81, CHR 0x82, CHR 0x83, CHR 0x84, CHR 0x85, CHR 0x86, CHR 0x87,
          CHR 0x88, CHR 0x89, CHR 0x8A, CHR 0xA8, CHR 0xA9, CHR 0xAF]
     @ [[CHR 0xE2, CHR 0x81, CHR 0x9F], [CHR 0xE3, CHR 0x80, CHR 0x80]]"

function trimLeft :: "string list \<Rightarrow> string \<Rightarrow> string" where
  "trimLeft runes s =
     (case find (\<lambda>r. r \<noteq> [] \<and> HasPrefix s r) runes of
        None \<Rightarrow> s
      | Some r \<Rightarrow> trimLeft runes (drop (length r) s))"
  by pat_completeness auto
termination
proof (relation "measure (\<lambda>(runes, s). length s)")
  show "wf (measure (\<lambda>(runes, s). length s))" by simp
next
  fix runes :: "string list" and s r :: string
  assume "find (\<lambda>r. r \<noteq> [] \<and> HasPrefix s r) runes = Some r"
  then have r: "r \<noteq> [] \<and> HasPrefix s r" by (auto simp: find_Some_iff)
  then have "length r \<le> length s" using HasPrefix_length by blast
  then show "((runes, drop (length r) s), (runes, s)) \<in> measure (\<lambda>(runes, s). length s)"
    using r by (cases s) auto
qed

declare trimLeft.simps [simp del]

definition TrimSpace :: "string \<Rightarrow> string" where
  "TrimSpace s = rev (trimLeft (map rev white_space) (rev (trimLeft white_space s)))"

text \<open>
  A buffered channel: the values buffered, oldest first, and the capacity given to
  \<open>make\<close>. \<open>trySend\<close> is the statement \<open>select { case ch <- v: ... default: ... }\<close>: the
  value is buffered when there is room, and the \<open>default\<close> branch runs at once when there
  is none. (A receiver waiting on an empty channel takes the value at once: the buffer
  then has room, and the value is the next one received.)
\<close>

record 'a chan =
  buf :: "'a list"
  cap :: nat

definition make_chan :: "nat \<Rightarrow> 'a chan" where
  "make_chan n = \<lparr>buf = [], cap = n\<rparr>"

definition trySend :: "'a chan \<Rightarrow> 'a \<Rightarrow> bool \<times> 'a chan" where
  "trySend ch v = (if length (buf ch) < cap ch then (True, ch\<lparr>buf := buf ch @ [v]\<rparr>) else (False, ch))"

text \<open>
  The request of an image command. The field \<open>int\<close> of the source, a pointer to the
  interaction, is named \<open>interaction\<close> here (\<open>int\<close> is the type of integers); an
  interaction is identified by a text, and \<open>nil\<close> is \<open>None\<close>.
\<close>

record intReq =
  description :: string
  imagePrompt :: string
  labelsContent :: string
  cmdName :: string
  interaction :: "string option"

text \<open>
  The fields of \<open>discordBot\<close> that the queues and the handlers read: whether the language
  model \<open>l\<close> and the image generator \<open>ig\<close> are set, the two channels and the wait group.
  \<open>newDiscordBot\<close> makes the chat channel with room for 5 requests and the image channel
  with room for 3, and adds 2 to the wait group, one for each worker.
\<close>

record discordBot =
  has_l :: bool
  has_ig :: bool
  chat :: "msgReq chan"
  image_chan :: "intReq chan"
  wg :: int

definition newDiscordBot :: "bool \<Rightarrow> bool \<Rightarrow> discordBot" where
  "newDiscordBot l ig =
     \<lparr>has_l = l, has_ig = ig, chat = make_chan 5, image_chan = make_chan 3, wg = 2\<rparr>"

text \<open>The fields of the event \<open>MessageCreate\<close> that \<open>onMessageCreate\<close> reads.\<close>

record MessageCreate =
  m_ID :: string
  m_AuthorID :: string
  m_ChannelID :: string
  m_GuildID :: string
  m_Content :: string

text \<open>
  \<open>fmt.Sprintf("<@%s>", botid)\<close>, the rejection of a chat request, and the request built from a
  message.
\<close>

definition mention :: "string \<Rightarrow> string" where
  "mention botid = ''<@'' @ botid @ ''>''"

definition chat_rejection :: string where
  "chat_rejection = ''Sorry! I have too many pending chat requests. Please retry in a moment.''"

definition msgReq_of :: "string \<Rightarrow> MessageCreate \<Rightarrow> msgReq" where
  "msgReq_of botid m =
     \<lparr>msg = TrimSpace (ReplaceAll (m_Content m) (mention botid)),
      authorID = m_AuthorID m, channelID = m_ChannelID m, guildID = m_GuildID m,
      replyToID = m_ID m\<rparr>"

text \<open>
  \<open>onMessageCreate\<close>, with the id of the bot: the calls made to the platform and the bot
  after the event. The request is sent to the channel without waiting.
\<close>

definition onMessageCreate :: "string \<Rightarrow> MessageCreate \<Rightarrow> discordBot \<Rightarrow> call list \<times> discordBot" where
  "onMessageCreate botid m d =
     (if m_AuthorID m = botid then ([], d)
      else if m_GuildID m \<noteq> [] \<and> \<not> Contains (m_Content m) (mention botid) then ([], d)
      else if \<not> has_l d then ([ChannelMessageSend (m_ChannelID m) ''LLM is not enabled.''], d)
      else
        (let req = msgReq_of botid m in
         case trySend (chat d) req of
           (True, ch) \<Rightarrow> ([ChannelTyping (m_ChannelID m)], d\<lparr>chat := ch\<rparr>)
         | (False, ch) \<Rightarrow>
             ([ChannelTyping (m_ChannelID m),
               ChannelMessageSendComplex (channelID req) chat_rejection (replyToID req)], d)))"

text \<open>The answers to an interaction: a message, or the deferred answer that is edited later.\<close>

datatype interaction_call =
    InteractionRespond string string
  | InteractionRespondDeferred string

definition image_rejection :: string where
  "image_rejection = ''Sorry! I have too many pending image requests. Please retry in a moment.''"

definition image_disabled :: string where
  "image_disabled = ''Image generation is not enabled. Restart with bot.image_gen.model set in config.yml.''"

text \<open>
  The options of an image command, as \<open>optionsToStruct\<close> decodes them; \<open>onImage\<close> is given
  the result of the decoding, which fails on options that are not texts.
\<close>

record image_opts =
  o_description :: string
  o_image_prompt :: string
  o_labels_content :: string

definition onImage ::
  "string \<Rightarrow> string \<Rightarrow> string + image_opts \<Rightarrow> discordBot \<Rightarrow> interaction_call list \<times> discordBot" where
  "onImage event name decoded d =
     (case decoded of
        Inl err \<Rightarrow> ([], d)
      | Inr opts \<Rightarrow>
          if \<not> has_ig d \<and> HasSuffix name ''_auto'' \<and> name \<noteq> ''meme_labels_auto''
          then ([InteractionRespond event image_disabled], d)
          else
            (let req = \<lparr>description = o_description opts, imagePrompt = o_image_prompt opts,
                        labelsContent = o_labels_content opts, cmdName = name,
                        interaction = Some event\<rparr> in
             case trySend (image_chan d) req of
               (True, ch) \<Rightarrow> ([InteractionRespondDeferred event], d\<lparr>image_chan := ch\<rparr>)
             | (False, ch) \<Rightarrow> ([InteractionRespond event image_rejection], d)))"

text \<open>
  The workers. A worker receives the values of its channel one after the other; the list
  is what the channel delivers, in order, and the worker waits when it has received them
  all (no statement of the program closes the two channels, so the \<open>range\<close> loop never
  ends by itself). The handler of a request is a parameter: it changes the world \<open>s\<close>
  outside the worker, or panics, which aborts the program. \<open>wg_Done\<close> is
  \<open>sync.WaitGroup.Done\<close>.
\<close>

datatype 'w outcome = Returned 'w | Blocked 'w | Panicked panic

definition wg_Done :: "int \<Rightarrow> panic + int" where
  "wg_Done n = (if n - 1 < 0 then Inl NegativeWaitGroupCounter else Inr (n - 1))"

fun chatRoutine ::
  "(msgReq \<Rightarrow> 's \<Rightarrow> panic + 's) \<Rightarrow> msgReq list \<Rightarrow> int \<times> 's \<Rightarrow> (int \<times> 's \<times> msgReq list) outcome" where
  "chatRoutine handle [] (n, s) = Blocked (n, s, [])"
| "chatRoutine handle (req # rest) (n, s) =
     (if authorID req = []
      then (case wg_Done n of Inl p \<Rightarrow> Panicked p | Inr n' \<Rightarrow> Returned (n', s, rest))
      else (case handle req s of
              Inl p \<Rightarrow> Panicked p
            | Inr s' \<Rightarrow> chatRoutine handle rest (n, s')))"

fun imageRoutine ::
  "(intReq \<Rightarrow> 's \<Rightarrow> panic + 's) \<Rightarrow> intReq list \<Rightarrow> int \<times> 's \<Rightarrow> (int \<times> 's \<times> intReq list) outcome" where
  "imageRoutine handle [] (n, s) = Blocked (n, s, [])"
| "imageRoutine handle (req # rest) (n, s) =
     (if interaction req = None
      then (case wg_Done n of Inl p \<Rightarrow> Panicked p | Inr n' \<Rightarrow> Returned (n', s, rest))
      else (case handle req s of
              Inl p \<Rightarrow> Panicked p
            | Inr s' \<Rightarrow> imageRoutine handle rest (n, s')))"

text \<open>
  Handling requests one after the other, and the requests that are not the poison: the zero
  value has an empty author, and a nil interaction.
\<close>

fun handleAll :: "('r \<Rightarrow> 's \<Rightarrow> panic + 's) \<Rightarrow> 'r list \<Rightarrow> 's \<Rightarrow> panic + 's" where
  "handleAll h [] s = Inr s"
| "handleAll h (r # rs) s = (case h r s of Inl p \<Rightarrow> Inl p | Inr s' \<Rightarrow> handleAll h rs s')"

definition live_chat :: "msgReq \<Rightarrow> bool" where
  "live_chat req = (authorID req \<noteq> [])"

definition live_image :: "intReq \<Rightarrow> bool" where
  "live_image req = (interaction req \<noteq> None)"

text \<open>The two workers are one loop, up to the test of the poison.\<close>

fun workerLoop ::
  "('r \<Rightarrow> bool) \<Rightarrow> ('r \<Rightarrow> 's \<Rightarrow> panic + 's) \<Rightarrow> 'r list \<Rightarrow> int \<times> 's \<Rightarrow> (int \<times> 's \<times> 'r list) outcome" where
  "workerLoop live handle [] (n, s) = Blocked (n, s, [])"
| "workerLoop live handle (req # rest) (n, s) =
     (if \<not> live req
      then (case wg_Done n of Inl p \<Rightarrow> Panicked p | Inr n' \<Rightarrow> Returned (n', s, rest))
      else (case handle req s of
              Inl p \<Rightarrow> Panicked p
            | Inr s' \<Rightarrow> workerLoop live handle rest (n, s')))"

lemma chatRoutine_workerLoop: "chatRoutine h q (n, s) = workerLoop live_chat h q (n, s)"
  by (induction q arbitrary: s) (auto simp: live_chat_def split: sum.splits)

lemma imageRoutine_workerLoop: "imageRoutine h q (n, s) = workerLoop live_image h q (n, s)"
  by (induction q arbitrary: s) (auto simp: live_image_def split: sum.splits)

lemma workerLoop_returns_iff:
  "workerLoop live h q (n, s) = Returned (n', s', rest) \<longleftrightarrow>
     (\<exists>pre p. q = pre @ p # rest \<and> list_all live pre \<and> \<not> live p
        \<and> handleAll h pre s = Inr s' \<and> 0 < n \<and> n' = n - 1)"
proof (induction q arbitrary: s)
  case Nil
  show ?case by simp
next
  case (Cons req q)
  show ?case
  proof (cases "live req")
    case False
    have "workerLoop live h (req # q) (n, s) = Returned (n', s', rest)
        \<longleftrightarrow> (0 < n \<and> n' = n - 1 \<and> s' = s \<and> rest = q)"
      using False by (auto simp: wg_Done_def)
    moreover have "(\<exists>pre p. req # q = pre @ p # rest \<and> list_all live pre \<and> \<not> live p
        \<and> handleAll h pre s = Inr s' \<and> 0 < n \<and> n' = n - 1)
        \<longleftrightarrow> (0 < n \<and> n' = n - 1 \<and> s' = s \<and> rest = q)"
    proof
      assume "\<exists>pre p. req # q = pre @ p # rest \<and> list_all live pre \<and> \<not> live p
        \<and> handleAll h pre s = Inr s' \<and> 0 < n \<and> n' = n - 1"
      then obtain pre p where d: "req # q = pre @ p # rest" and l: "list_all live pre"
        and r: "handleAll h pre s = Inr s'" and w: "0 < n \<and> n' = n - 1" by blast
      have "pre = []"
      proof (cases pre)
        case Nil
        then show ?thesis .
      next
        case (Cons a as)
        then have "a = req" using d by simp
        then show ?thesis using l Cons False by simp
      qed
      then show "0 < n \<and> n' = n - 1 \<and> s' = s \<and> rest = q" using d r w by simp
    next
      assume a: "0 < n \<and> n' = n - 1 \<and> s' = s \<and> rest = q"
      have "req # q = [] @ req # rest \<and> list_all live [] \<and> \<not> live req
        \<and> handleAll h [] s = Inr s' \<and> 0 < n \<and> n' = n - 1"
        using a False by simp
      then show "\<exists>pre p. req # q = pre @ p # rest \<and> list_all live pre \<and> \<not> live p
        \<and> handleAll h pre s = Inr s' \<and> 0 < n \<and> n' = n - 1" by blast
    qed
    ultimately show ?thesis by simp
  next
    case True
    show ?thesis
    proof (cases "h req s")
      case (Inl p)
      have "\<not> (\<exists>pre p. req # q = pre @ p # rest \<and> list_all live pre \<and> \<not> live p
        \<and> handleAll h pre s = Inr s' \<and> 0 < n \<and> n' = n - 1)"
      proof
        assume "\<exists>pre p. req # q = pre @ p # rest \<and> list_all live pre \<and> \<not> live p
          \<and> handleAll h pre s = Inr s' \<and> 0 < n \<and> n' = n - 1"
        then obtain pre p where d: "req # q = pre @ p # rest" and np: "\<not> live p"
          and r: "handleAll h pre s = Inr s'" by blast
        show False
        proof (cases pre)
          case Nil
          then show ?thesis using d np True by simp
        next
          case (Cons a as)
          then have "a = req" using d by simp
          then show ?thesis using r Cons Inl by simp
        qed
      qed
      moreover have "workerLoop live h (req # q) (n, s) = Panicked p"
        using True Inl by simp
      ultimately show ?thesis by simp
    next
      case (Inr s1)
      have "workerLoop live h (req # q) (n, s) = workerLoop live h q (n, s1)"
        using True Inr by simp
      moreover have "(\<exists>pre p. req # q = pre @ p # rest \<and> list_all live pre \<and> \<not> live p
          \<and> handleAll h pre s = Inr s' \<and> 0 < n \<and> n' = n - 1)
        \<longleftrightarrow> (\<exists>pre p. q = pre @ p # rest \<and> list_all live pre \<and> \<not> live p
          \<and> handleAll h pre s1 = Inr s' \<and> 0 < n \<and> n' = n - 1)"
      proof
        assume "\<exists>pre p. req # q = pre @ p # rest \<and> list_all live pre \<and> \<not> live p
          \<and> handleAll h pre s = Inr s' \<and> 0 < n \<and> n' = n - 1"
        then obtain pre p where d: "req # q = pre @ p # rest" and l: "list_all live pre"
          and np: "\<not> live p" and r: "handleAll h pre s = Inr s'"
          and w: "0 < n \<and> n' = n - 1" by blast
        show "\<exists>pre p. q = pre @ p # rest \<and> list_all live pre \<and> \<not> live p
          \<and> handleAll h pre s1 = Inr s' \<and> 0 < n \<and> n' = n - 1"
        proof (cases pre)
          case Nil
          then show ?thesis using d np True by simp
        next
          case (Cons a as)
          then have "a = req \<and> q = as @ p # rest" using d by simp
          moreover have "list_all live as" using l Cons by simp
          moreover have "handleAll h as s1 = Inr s'" using r Cons Inr \<open>a = req \<and> q = as @ p # rest\<close> by simp
          ultimately show ?thesis using np w by blast
        qed
      next
        assume "\<exists>pre p. q = pre @ p # rest \<and> list_all live pre \<and> \<not> live p
          \<and> handleAll h pre s1 = Inr s' \<and> 0 < n \<and> n' = n - 1"
        then obtain pre p where d: "q = pre @ p # rest" and l: "list_all live pre"
          and np: "\<not> live p" and r: "handleAll h pre s1 = Inr s'"
          and w: "0 < n \<and> n' = n - 1" by blast
        have "req # q = (req # pre) @ p # rest \<and> list_all live (req # pre) \<and> \<not> live p
          \<and> handleAll h (req # pre) s = Inr s' \<and> 0 < n \<and> n' = n - 1"
          using d l np r w True Inr by simp
        then show "\<exists>pre p. req # q = pre @ p # rest \<and> list_all live pre \<and> \<not> live p
          \<and> handleAll h pre s = Inr s' \<and> 0 < n \<and> n' = n - 1" by blast
      qed
      ultimately show ?thesis using Cons.IH [of s1] by simp
    qed
  qed
qed

text \<open>
  C6. Each worker returns exactly when it receives the poison: the requests received
  before it are not the poison and were all handled, in order, by calls that returned;
  receiving the poison signals the wait group once (\<open>n' = n - 1\<close>) and leaves the rest of
  the queue unhandled. There is no other way to \<open>Returned\<close>: a queue without poison
  leaves the worker waiting.
\<close>

theorem worker_returns_on_poison_only:
  "(chatRoutine hp q (n, s) = Returned (n', s', rest) \<longleftrightarrow>
      (\<exists>pre p. q = pre @ p # rest \<and> list_all live_chat pre \<and> \<not> live_chat p
         \<and> handleAll hp pre s = Inr s' \<and> 0 < n \<and> n' = n - 1))
   \<and> (imageRoutine hi qi (n, t) = Returned (n', t', resti) \<longleftrightarrow>
      (\<exists>pre p. qi = pre @ p # resti \<and> list_all live_image pre \<and> \<not> live_image p
         \<and> handleAll hi pre t = Inr t' \<and> 0 < n \<and> n' = n - 1))"
  unfolding chatRoutine_workerLoop imageRoutine_workerLoop
  using workerLoop_returns_iff [of live_chat hp q n s n' s' rest]
    workerLoop_returns_iff [of live_image hi qi n t n' t' resti]
  by blast

text \<open>
  A message reaches the queue when it is not the bot's own and, on a server, mentions the
  bot; an image command does when the generator is set or the command does not need it.
\<close>

definition addressed :: "string \<Rightarrow> MessageCreate \<Rightarrow> bool" where
  "addressed botid m =
     (m_AuthorID m \<noteq> botid \<and> (m_GuildID m = [] \<or> Contains (m_Content m) (mention botid)))"

definition image_allowed :: "string \<Rightarrow> discordBot \<Rightarrow> bool" where
  "image_allowed name d =
     (has_ig d \<or> name = ''meme_labels_auto'' \<or> \<not> HasSuffix name ''_auto'')"

text \<open>The capacities that \<open>newDiscordBot\<close> gives, which no handler changes.\<close>

definition queues_as_made :: "discordBot \<Rightarrow> bool" where
  "queues_as_made d = (cap (chat d) = 5 \<and> cap (image_chan d) = 3)"

definition intReq_of :: "string \<Rightarrow> string \<Rightarrow> image_opts \<Rightarrow> intReq" where
  "intReq_of event name opts =
     \<lparr>description = o_description opts, imagePrompt = o_image_prompt opts,
      labelsContent = o_labels_content opts, cmdName = name, interaction = Some event\<rparr>"

lemma onMessageCreate_admission:
  assumes "addressed botid m" and "has_l d"
  shows "onMessageCreate botid m d =
     (if length (buf (chat d)) < cap (chat d)
      then ([ChannelTyping (m_ChannelID m)],
            d\<lparr>chat := (chat d)\<lparr>buf := buf (chat d) @ [msgReq_of botid m]\<rparr>\<rparr>)
      else ([ChannelTyping (m_ChannelID m),
             ChannelMessageSendComplex (m_ChannelID m) chat_rejection (m_ID m)], d))"
  using assms by (auto simp: onMessageCreate_def addressed_def trySend_def Let_def msgReq_of_def)

lemma onImage_admission:
  assumes "image_allowed name d"
  shows "onImage event name (Inr opts) d =
     (if length (buf (image_chan d)) < cap (image_chan d)
      then ([InteractionRespondDeferred event],
            d\<lparr>image_chan := (image_chan d)\<lparr>buf := buf (image_chan d) @ [intReq_of event name opts]\<rparr>\<rparr>)
      else ([InteractionRespond event image_rejection], d))"
  using assms by (auto simp: onImage_def image_allowed_def trySend_def Let_def intReq_of_def)

lemma newDiscordBot_queues: "queues_as_made (newDiscordBot l ig)"
  by (simp add: queues_as_made_def newDiscordBot_def make_chan_def)

lemma handlers_keep_queues:
  assumes "queues_as_made d"
  shows "queues_as_made (snd (onMessageCreate botid m d))
       \<and> queues_as_made (snd (onImage event name decoded d))"
  using assms
  by (auto simp: queues_as_made_def onMessageCreate_def onImage_def trySend_def Let_def
      split: sum.splits)

text \<open>
  C5. Admission never waits. For a chat message that reaches the queue, the handler
  returns at once in both cases: with fewer than 5 requests buffered the request is
  appended and nothing but the typing notice is sent; with 5, the queue is unchanged and
  the one message sent after the typing notice is the rejection asking to retry, with no
  second attempt. The same holds for an image command and 3 requests.
\<close>

theorem admission_fails_fast:
  assumes "queues_as_made d"
  shows "(addressed botid m \<and> has_l d \<longrightarrow>
          onMessageCreate botid m d =
            (if length (buf (chat d)) < 5
             then ([ChannelTyping (m_ChannelID m)],
                   d\<lparr>chat := (chat d)\<lparr>buf := buf (chat d) @ [msgReq_of botid m]\<rparr>\<rparr>)
             else ([ChannelTyping (m_ChannelID m),
                    ChannelMessageSendComplex (m_ChannelID m) chat_rejection (m_ID m)], d)))
   \<and> (image_allowed name d \<longrightarrow>
          onImage event name (Inr opts) d =
            (if length (buf (image_chan d)) < 3
             then ([InteractionRespondDeferred event],
                   d\<lparr>image_chan := (image_chan d)\<lparr>buf := buf (image_chan d) @ [intReq_of event name opts]\<rparr>\<rparr>)
             else ([InteractionRespond event image_rejection], d)))"
proof -
  have c: "cap (chat d) = 5" and i: "cap (image_chan d) = 3"
    using assms by (simp_all add: queues_as_made_def)
  show ?thesis
    using onMessageCreate_admission [of botid m d] onImage_admission [of name d event opts] c i
    by simp
qed

text \<open>A bot whose two queues are full, a message that mentions the bot and an image command.\<close>

definition example_message :: MessageCreate where
  "example_message =
     \<lparr>m_ID = ''m9'', m_AuthorID = ''7'', m_ChannelID = ''c'', m_GuildID = ''g'',
      m_Content = ''<@1> hello''\<rparr>"

definition example_intReq :: intReq where
  "example_intReq =
     \<lparr>description = [], imagePrompt = ''a cat'', labelsContent = [], cmdName = ''image_manual'',
      interaction = Some ''i0''\<rparr>"

definition example_opts :: image_opts where
  "example_opts = \<lparr>o_description = [], o_image_prompt = ''a dog'', o_labels_content = []\<rparr>"

definition example_full :: discordBot where
  "example_full =
     \<lparr>has_l = True, has_ig = True,
      chat = \<lparr>buf = replicate 5 example_req, cap = 5\<rparr>,
      image_chan = \<lparr>buf = replicate 3 example_intReq, cap = 3\<rparr>, wg = 2\<rparr>"

lemma example_addressed: "addressed ''1'' example_message"
  by (simp add: addressed_def example_message_def mention_def Contains_def)

text \<open>With both queues full, the two rejections; with an empty queue, the request is buffered.\<close>

theorem admission_fails_fast_witness:
  "queues_as_made example_full
   \<and> addressed ''1'' example_message \<and> has_l example_full
   \<and> onMessageCreate ''1'' example_message example_full =
       ([ChannelTyping ''c'', ChannelMessageSendComplex ''c'' chat_rejection ''m9''], example_full)
   \<and> image_allowed ''image_manual'' example_full
   \<and> onImage ''i9'' ''image_manual'' (Inr example_opts) example_full =
       ([InteractionRespond ''i9'' image_rejection], example_full)
   \<and> queues_as_made (newDiscordBot True True) \<and> has_l (newDiscordBot True True)
   \<and> onMessageCreate ''1'' example_message (newDiscordBot True True) =
       ([ChannelTyping ''c''],
        (newDiscordBot True True)\<lparr>chat := \<lparr>buf = [msgReq_of ''1'' example_message], cap = 5\<rparr>\<rparr>)"
proof -
  have q: "queues_as_made example_full" by (simp add: queues_as_made_def example_full_def)
  have l: "has_l example_full" by (simp add: example_full_def)
  have i: "image_allowed ''image_manual'' example_full"
    by (simp add: image_allowed_def example_full_def)
  have f: "\<not> length (buf (chat example_full)) < 5 \<and> \<not> length (buf (image_chan example_full)) < 3"
    by (simp add: example_full_def)
  have m: "m_ChannelID example_message = ''c'' \<and> m_ID example_message = ''m9''"
    by (simp add: example_message_def)
  have n: "has_l (newDiscordBot True True) \<and> buf (chat (newDiscordBot True True)) = []
      \<and> chat (newDiscordBot True True) = \<lparr>buf = [], cap = 5\<rparr>"
    by (simp add: newDiscordBot_def make_chan_def)
  show ?thesis
    using admission_fails_fast [OF q, of "''1''" example_message "''image_manual''" "''i9''" example_opts]
      admission_fails_fast [OF newDiscordBot_queues, of "''1''" example_message True True]
      q l i f m n example_addressed newDiscordBot_queues [of True True]
    by simp
qed

section \<open>The image pipeline: \<open>handleImage\<close>\<close>

text \<open>
  \<open>escapeMarkdown\<close> puts a backslash before every match of the pattern
  \<open>[_\~|*`]|^>(?:>>)?\s|\[.+\]\(.+\)|^#{1,3}|^\s*-\<close>, found from left to right without
  overlap. At a position the alternatives are tried in this order, each as long as it can
  be: one of the six characters; at the start of the text, a quote mark \<open>>\<close> or \<open>>>>\<close>
  and one space; a link \<open>[..](..)\<close> within a line, up to the last closing parenthesis of the
  line; at the start, up to three \<open>#\<close>; at the start, spaces and a dash. The functions
  below give the length of the match of each alternative, 0 for none.
\<close>

definition markdown_char :: "char \<Rightarrow> bool" where
  "markdown_char c = (c \<in> set ''_~|*'' \<or> c = backslash \<or> c = backquote)"

definition regexp_space :: "char \<Rightarrow> bool" where
  "regexp_space c = (c \<in> set [CHR 0x09, CHR 0x0A, CHR 0x0C, CHR 0x0D, CHR 0x20])"

fun quote_len :: "string \<Rightarrow> nat" where
  "quote_len (a # b # c # w # r) =
     (if a = CHR ''>'' \<and> b = CHR ''>'' \<and> c = CHR ''>'' \<and> regexp_space w then 4
      else if a = CHR ''>'' \<and> regexp_space b then 2 else 0)"
| "quote_len (a # w # r) = (if a = CHR ''>'' \<and> regexp_space w then 2 else 0)"
| "quote_len s = 0"

definition link_len :: "string \<Rightarrow> nat" where
  "link_len s =
     (case s of
        [] \<Rightarrow> 0
      | c # r \<Rightarrow>
          (let line = takeWhile (\<lambda>x. x \<noteq> newline) r;
               k = LastIndexByte line (CHR '')'')
           in if c = CHR ''['' \<and> 4 \<le> k \<and> Contains (take (nat k - 2) (drop 1 line)) ''](''
              then nat k + 2 else 0))"

definition hash_len :: "string \<Rightarrow> nat" where
  "hash_len s = min 3 (length (takeWhile (\<lambda>x. x = CHR ''#'') s))"

definition dash_len :: "string \<Rightarrow> nat" where
  "dash_len s =
     (let n = length (takeWhile regexp_space s)
      in if HasPrefix (drop n s) ''-'' then n + 1 else 0)"

definition match_len :: "bool \<Rightarrow> string \<Rightarrow> nat" where
  "match_len at_start s =
     (case s of
        [] \<Rightarrow> 0
      | c # r \<Rightarrow>
          if markdown_char c then 1
          else if at_start \<and> 0 < quote_len s then quote_len s
          else if 0 < link_len s then link_len s
          else if at_start \<and> 0 < hash_len s then hash_len s
          else if at_start then dash_len s
          else 0)"

function escapeFrom :: "bool \<Rightarrow> string \<Rightarrow> string" where
  "escapeFrom at_start s =
     (if s = [] then []
      else (let n = match_len at_start s in
            if n = 0 then hd s # escapeFrom False (tl s)
            else backslash # take n s @ escapeFrom False (drop n s)))"
  by pat_completeness auto
termination
  by (relation "measure (\<lambda>(at_start, s). length s)") (auto simp: neq_Nil_conv)

declare escapeFrom.simps [simp del]

definition escapeMarkdown :: "string \<Rightarrow> string" where
  "escapeMarkdown s = escapeFrom True s"

text \<open>\<open>strings.Trim(s, cutset)\<close> for ASCII characters.\<close>

definition Trim :: "string \<Rightarrow> string \<Rightarrow> string" where
  "Trim s cutset =
     rev (dropWhile (\<lambda>c. c \<in> set cutset) (rev (dropWhile (\<lambda>c. c \<in> set cutset) s)))"

text \<open>The two system prompts of the source.\<close>

definition imagePrompt_system :: string where
  "imagePrompt_system = ''You are autoregressive language model that specializes in creating perfect, outstanding prompts for generative art models like Stable Diffusion. Your job is to take user ideas, capture ALL main parts, and turn into amazing prompts. You have to capture everything from the user's prompt and then use your talent to make it amazing. You are a master of art styles, terminology, pop culture, and photography across the globe. Respond only with the new prompt. Exclude article words.''"

definition memePrompt_system :: string where
  "memePrompt_system = ''You are autoregressive language model that specializes in creating perfect, outstanding meme text. Your job is to take user ideas, capture ALL main parts, and turn into amazing meme labels. You have to capture everything from the user's prompt and then use your talent to make it amazing filled with sarcasm. Respond only with the new meme text. Make it as succinct as possible. Use few words. Use exactly one comma. Exclude article words.''"

text \<open>
  What \<open>handleImage\<close> does, in order: the calls to the language model, to the image
  generator (prompt and seed), to the compositor and to the PNG encoder, and the edit of
  the response (the interaction, the content and the attached file, if any).
\<close>

datatype step =
    CallPrompt "Message list"
  | CallGenImage string int
  | CallDrawMeme string
  | CallEncode
  | ResponseEdit "string option" string "string option"

text \<open>
  The collaborators of \<open>handleImage\<close>: \<open>d.l.Prompt\<close> answers a text or fails with a
  message, \<open>d.ig\<close> may be nil, \<open>GenImage\<close> gives an image or fails, and so does
  \<open>png.Encode\<close>. The failures of the edits are only logged.
\<close>

record 'img image_env =
  Prompt :: "Message list \<Rightarrow> string + string"
  GenImage :: "(string \<Rightarrow> int \<Rightarrow> string + 'img) option"
  drawMemeOnImage :: "'img \<Rightarrow> string \<Rightarrow> 'img"
  Encode :: "'img \<Rightarrow> string + string"

text \<open>
  The first part of \<open>handleImage\<close>: the description, then the prompt of the image, which
  the language model writes for the two commands that ask for it. The result is the
  status text so far, the request with its new prompt, and the calls made.
\<close>

definition enhance :: "'img image_env \<Rightarrow> intReq \<Rightarrow> string \<times> intReq \<times> step list" where
  "enhance env req =
     (let content = (if description req \<noteq> []
                     then ''*Description*: '' @ escapeMarkdown (description req) @ [newline] else []);
          msgs = [\<lparr>Role = System, Content = imagePrompt_system\<rparr>,
                  \<lparr>Role = User, Content = description req\<rparr>];
          (content, req, steps) =
            (if cmdName req = ''meme_auto'' \<or> cmdName req = ''image_auto''
             then (case Prompt env msgs of
                     Inl err \<Rightarrow>
                       (content @ ''*LLM Error*: '' @ escapeMarkdown err @ [newline], req, [CallPrompt msgs])
                   | Inr reply \<Rightarrow> (content, req\<lparr>imagePrompt := reply\<rparr>, [CallPrompt msgs]))
             else (content, req, []))
      in (if imagePrompt req \<noteq> []
          then content @ ''*Image prompt*: '' @ escapeMarkdown (imagePrompt req) @ [newline]
          else content,
          req, steps))"

text \<open>
  The second part: the labels, which the language model writes for the two commands that
  ask for it.
\<close>

definition label :: "'img image_env \<Rightarrow> string \<times> intReq \<Rightarrow> string \<times> intReq \<times> step list" where
  "label env cr =
     (let (content, req) = cr;
          msgs = [\<lparr>Role = System, Content = memePrompt_system\<rparr>,
                  \<lparr>Role = User, Content = description req\<rparr>]
      in if cmdName req = ''meme_auto'' \<or> cmdName req = ''meme_labels_auto''
         then (case Prompt env msgs of
                 Inl err \<Rightarrow>
                   (content @ ''*LLM Error*: '' @ escapeMarkdown err @ [newline], req, [CallPrompt msgs])
               | Inr meme \<Rightarrow>
                   (content, req\<lparr>labelsContent := Trim meme ([CHR 0x22] @ '',.'')\<rparr>, [CallPrompt msgs]))
         else (content, req, []))"

text \<open>The two parts in sequence.\<close>

definition accumulate :: "'img image_env \<Rightarrow> intReq \<Rightarrow> string \<times> intReq \<times> step list" where
  "accumulate env req0 =
     (let (content, req, s1) = enhance env req0;
          (content, req, s2) = label env (content, req)
      in (content, req, s1 @ s2))"

text \<open>
  \<open>handleImage\<close>: the steps made and the panic that ends them, if any. The command
  \<open>meme_labels_auto\<close> answers with the labels alone. Otherwise the image is generated,
  labelled, encoded and attached to the edit.
\<close>

definition handleImage :: "'img image_env \<Rightarrow> intReq \<Rightarrow> step list \<times> panic option" where
  "handleImage env req0 =
     (let (content, req, steps) = accumulate env req0 in
      if cmdName req = ''meme_labels_auto''
      then (steps @ [ResponseEdit (interaction req)
                       (content @ ''*Labels*: '' @ escapeMarkdown (labelsContent req)) None],
            None)
      else
        (let content = (if labelsContent req \<noteq> []
                        then content @ ''*Labels*: '' @ escapeMarkdown (labelsContent req) @ [newline]
                        else content)
         in case GenImage env of
              None \<Rightarrow> (steps, Some NilPointerDereference)
            | Some gen \<Rightarrow>
                (case gen (imagePrompt req) 1 of
                   Inl err \<Rightarrow>
                     (steps @ [CallGenImage (imagePrompt req) 1,
                               ResponseEdit (interaction req)
                                 (content @ ''*ImageGen Error*: '' @ escapeMarkdown err) None],
                      None)
                 | Inr img \<Rightarrow>
                     (let (img, drawn) =
                            (if labelsContent req \<noteq> []
                             then (drawMemeOnImage env img (labelsContent req),
                                   [CallDrawMeme (labelsContent req)])
                             else (img, []))
                      in case Encode env img of
                           Inl err \<Rightarrow>
                             (steps @ [CallGenImage (imagePrompt req) 1] @ drawn @ [CallEncode], None)
                         | Inr png \<Rightarrow>
                             (steps @ [CallGenImage (imagePrompt req) 1] @ drawn
                                @ [CallEncode, ResponseEdit (interaction req) content (Some png)],
                              None)))))"

text \<open>The edits and the calls to the language model among the steps.\<close>

fun is_edit :: "step \<Rightarrow> bool" where
  "is_edit (ResponseEdit i c a) = True"
| "is_edit s = False"

fun is_prompt :: "step \<Rightarrow> bool" where
  "is_prompt (CallPrompt msgs) = True"
| "is_prompt s = False"

text \<open>The messages of the first call to the language model, and an encoder that never fails.\<close>

definition enhance_msgs :: "intReq \<Rightarrow> Message list" where
  "enhance_msgs req =
     [\<lparr>Role = System, Content = imagePrompt_system\<rparr>, \<lparr>Role = User, Content = description req\<rparr>]"

definition encodes :: "'img image_env \<Rightarrow> bool" where
  "encodes env = (\<forall>img. \<exists>png. Encode env img = Inr png)"

lemma Contains_middle: "Contains (x @ y @ z) y"
proof -
  have "HasPrefix (drop (length x) (x @ y @ z)) y" by (simp add: HasPrefix_iff)
  then have "Index (x @ y @ z) y \<noteq> - 1" using Index_none by blast
  then show ?thesis using Index_ge [of "x @ y @ z" y] by (simp add: Contains_def)
qed

lemma HasPrefix_append [simp]: "HasPrefix (x @ y) x"
  by (simp add: HasPrefix_iff)

lemma HasPrefix_refl [simp]: "HasPrefix x x"
  by (simp add: HasPrefix_iff)

lemma enhance_keeps:
  "cmdName (fst (snd (enhance env req))) = cmdName req
   \<and> interaction (fst (snd (enhance env req))) = interaction req
   \<and> description (fst (snd (enhance env req))) = description req
   \<and> list_all is_prompt (snd (snd (enhance env req)))"
  by (auto simp: enhance_def Let_def split: sum.splits)

lemma label_keeps:
  "cmdName (fst (snd (label env (c, req)))) = cmdName req
   \<and> interaction (fst (snd (label env (c, req)))) = interaction req
   \<and> imagePrompt (fst (snd (label env (c, req)))) = imagePrompt req
   \<and> list_all is_prompt (snd (snd (label env (c, req))))
   \<and> HasPrefix (fst (label env (c, req))) c"
  by (auto simp: label_def Let_def split: sum.splits)

lemma accumulate_eq:
  "accumulate env req =
     (fst (label env (fst (enhance env req), fst (snd (enhance env req)))),
      fst (snd (label env (fst (enhance env req), fst (snd (enhance env req))))),
      snd (snd (enhance env req)) @ snd (snd (label env (fst (enhance env req), fst (snd (enhance env req))))))"
  by (simp add: accumulate_def split: prod.splits)

lemma accumulate_keeps:
  "cmdName (fst (snd (accumulate env req))) = cmdName req
   \<and> interaction (fst (snd (accumulate env req))) = interaction req
   \<and> list_all is_prompt (snd (snd (accumulate env req)))"
  using enhance_keeps [of env req]
    label_keeps [of env "fst (enhance env req)" "fst (snd (enhance env req))"]
  by (simp add: accumulate_eq)

lemma enhance_failure:
  assumes "cmdName req = ''meme_auto'' \<or> cmdName req = ''image_auto''"
    and "Prompt env (enhance_msgs req) = Inl e"
  shows "imagePrompt (fst (snd (accumulate env req))) = imagePrompt req
       \<and> Contains (fst (accumulate env req)) (''*LLM Error*: '' @ escapeMarkdown e @ [newline])"
proof -
  let ?line = "''*LLM Error*: '' @ escapeMarkdown e @ [newline]"
  obtain x z where c: "fst (enhance env req) = x @ ?line @ z"
    and p: "imagePrompt (fst (snd (enhance env req))) = imagePrompt req"
  proof
    show "fst (enhance env req)
        = (if description req \<noteq> []
           then ''*Description*: '' @ escapeMarkdown (description req) @ [newline] else [])
          @ ?line
          @ (if imagePrompt req \<noteq> []
             then ''*Image prompt*: '' @ escapeMarkdown (imagePrompt req) @ [newline] else [])"
      using assms by (auto simp: enhance_def enhance_msgs_def Let_def)
    show "imagePrompt (fst (snd (enhance env req))) = imagePrompt req"
      using assms by (auto simp: enhance_def enhance_msgs_def Let_def)
  qed
  note l = label_keeps [of env "fst (enhance env req)" "fst (snd (enhance env req))"]
  then obtain w where "fst (accumulate env req) = (x @ ?line @ z) @ w"
    using c by (auto simp: accumulate_eq HasPrefix_iff)
  then have "fst (accumulate env req) = x @ ?line @ (z @ w)" by simp
  then have "Contains (fst (accumulate env req)) ?line" using Contains_middle by metis
  then show ?thesis using p l by (simp add: accumulate_eq)
qed

text \<open>The status text, the prompt and the steps after the two parts.\<close>

definition status_text :: "'img image_env \<Rightarrow> intReq \<Rightarrow> string" where
  "status_text env req = fst (accumulate env req)"

definition prompt_used :: "'img image_env \<Rightarrow> intReq \<Rightarrow> string" where
  "prompt_used env req = imagePrompt (fst (snd (accumulate env req)))"

definition llm_steps :: "'img image_env \<Rightarrow> intReq \<Rightarrow> step list" where
  "llm_steps env req = snd (snd (accumulate env req))"

lemma accumulate_parts:
  "accumulate env req = (status_text env req, fst (snd (accumulate env req)), llm_steps env req)"
  by (simp add: status_text_def llm_steps_def)

lemma no_edit_in_prompts: "list_all is_prompt xs \<Longrightarrow> filter is_edit xs = []"
proof (induction xs)
  case Nil
  show ?case by simp
next
  case (Cons x xs)
  then show ?case by (cases x) simp_all
qed

lemma llm_steps_prompts: "list_all is_prompt (llm_steps env req)"
  using accumulate_keeps [of env req] by (simp add: llm_steps_def)

lemma handleImage_labels_only:
  assumes "cmdName req0 = ''meme_labels_auto''"
  shows "\<exists>c. HasPrefix c (status_text env req0)
     \<and> handleImage env req0 = (llm_steps env req0 @ [ResponseEdit (interaction req0) c None], None)"
proof -
  let ?req = "fst (snd (accumulate env req0))"
  have k: "cmdName ?req = ''meme_labels_auto'' \<and> interaction ?req = interaction req0"
    using accumulate_keeps [of env req0] assms by simp
  have "handleImage env req0 =
      (llm_steps env req0 @ [ResponseEdit (interaction req0)
         (status_text env req0 @ ''*Labels*: '' @ escapeMarkdown (labelsContent ?req)) None], None)"
    unfolding handleImage_def by (subst accumulate_parts) (simp add: k)
  then show ?thesis using HasPrefix_append by blast
qed

lemma handleImage_generation_fails:
  assumes "GenImage env = Some gen" and "cmdName req0 \<noteq> ''meme_labels_auto''"
    and "gen (prompt_used env req0) 1 = Inl err"
  shows "\<exists>status. HasPrefix status (status_text env req0)
     \<and> handleImage env req0 =
         (llm_steps env req0 @
            [CallGenImage (prompt_used env req0) 1,
             ResponseEdit (interaction req0)
               (status @ ''*ImageGen Error*: '' @ escapeMarkdown err) None], None)"
proof -
  let ?req = "fst (snd (accumulate env req0))"
  let ?status = "if labelsContent ?req \<noteq> []
       then status_text env req0 @ ''*Labels*: '' @ escapeMarkdown (labelsContent ?req) @ [newline]
       else status_text env req0"
  have k: "cmdName ?req \<noteq> ''meme_labels_auto'' \<and> interaction ?req = interaction req0"
    using accumulate_keeps [of env req0] assms(2) by simp
  have g: "gen (imagePrompt ?req) 1 = Inl err" using assms(3) by (simp add: prompt_used_def)
  have "handleImage env req0 =
      (llm_steps env req0 @
         [CallGenImage (prompt_used env req0) 1,
          ResponseEdit (interaction req0) (?status @ ''*ImageGen Error*: '' @ escapeMarkdown err) None],
       None)"
    unfolding handleImage_def
    by (subst accumulate_parts) (simp add: k g assms(1) prompt_used_def Let_def)
  moreover have "HasPrefix ?status (status_text env req0)" by simp
  ultimately show ?thesis by blast
qed

lemma handleImage_generated:
  assumes "GenImage env = Some gen" and "cmdName req0 \<noteq> ''meme_labels_auto''"
    and "gen (prompt_used env req0) 1 = Inr img"
  shows "\<exists>status drawn img'. HasPrefix status (status_text env req0)
     \<and> list_all (\<lambda>s. \<not> is_edit s) drawn
     \<and> handleImage env req0 =
         (case Encode env img' of
            Inl e \<Rightarrow> (llm_steps env req0 @ [CallGenImage (prompt_used env req0) 1] @ drawn @ [CallEncode],
                      None)
          | Inr png \<Rightarrow>
              (llm_steps env req0 @ [CallGenImage (prompt_used env req0) 1] @ drawn
                 @ [CallEncode, ResponseEdit (interaction req0) status (Some png)], None))"
proof -
  let ?req = "fst (snd (accumulate env req0))"
  let ?status = "if labelsContent ?req \<noteq> []
       then status_text env req0 @ ''*Labels*: '' @ escapeMarkdown (labelsContent ?req) @ [newline]
       else status_text env req0"
  let ?drawn = "if labelsContent ?req \<noteq> [] then [CallDrawMeme (labelsContent ?req)] else []"
  let ?img = "if labelsContent ?req \<noteq> [] then drawMemeOnImage env img (labelsContent ?req) else img"
  have k: "cmdName ?req \<noteq> ''meme_labels_auto'' \<and> interaction ?req = interaction req0"
    using accumulate_keeps [of env req0] assms(2) by simp
  have g: "gen (imagePrompt ?req) 1 = Inr img" using assms(3) by (simp add: prompt_used_def)
  have "handleImage env req0 =
         (case Encode env ?img of
            Inl e \<Rightarrow> (llm_steps env req0 @ [CallGenImage (prompt_used env req0) 1] @ ?drawn @ [CallEncode],
                      None)
          | Inr png \<Rightarrow>
              (llm_steps env req0 @ [CallGenImage (prompt_used env req0) 1] @ ?drawn
                 @ [CallEncode, ResponseEdit (interaction req0) ?status (Some png)], None))"
    unfolding handleImage_def
    by (subst accumulate_parts) (simp add: k g assms(1) prompt_used_def Let_def split: sum.splits)
  moreover have "HasPrefix ?status (status_text env req0)" by simp
  moreover have "list_all (\<lambda>s. \<not> is_edit s) ?drawn" by simp
  ultimately show ?thesis by blast
qed

lemma no_edit_filter: "list_all (\<lambda>s. \<not> is_edit s) xs \<Longrightarrow> filter is_edit xs = []"
  by (induction xs) simp_all

lemma HasPrefix_extend: "HasPrefix s p \<Longrightarrow> HasPrefix (s @ x) p"
  by (auto simp: HasPrefix_iff)

lemma handleImage_calls_generator:
  assumes "GenImage env = Some gen" and "cmdName req \<noteq> ''meme_labels_auto''"
  shows "CallGenImage (prompt_used env req) 1 \<in> set (fst (handleImage env req))"
proof (cases "gen (prompt_used env req) 1")
  case (Inl err)
  then show ?thesis using handleImage_generation_fails [OF assms Inl] by auto
next
  case (Inr img)
  obtain status drawn img' where
    h: "handleImage env req =
         (case Encode env img' of
            Inl e \<Rightarrow> (llm_steps env req @ [CallGenImage (prompt_used env req) 1] @ drawn @ [CallEncode],
                      None)
          | Inr png \<Rightarrow>
              (llm_steps env req @ [CallGenImage (prompt_used env req) 1] @ drawn
                 @ [CallEncode, ResponseEdit (interaction req) status (Some png)], None))"
    using handleImage_generated [OF assms Inr] by blast
  show ?thesis by (cases "Encode env img'") (simp_all add: h)
qed

lemma handleImage_one_edit:
  assumes "GenImage env = Some gen" and "encodes env"
  shows "\<exists>c a. filter is_edit (fst (handleImage env req)) = [ResponseEdit (interaction req) c a]
     \<and> last (fst (handleImage env req)) = ResponseEdit (interaction req) c a
     \<and> HasPrefix c (status_text env req)"
proof (cases "cmdName req = ''meme_labels_auto''")
  case True
  obtain c where c: "HasPrefix c (status_text env req)"
    and h: "handleImage env req = (llm_steps env req @ [ResponseEdit (interaction req) c None], None)"
    using handleImage_labels_only [OF True, of env] by blast
  have "filter is_edit (fst (handleImage env req)) = [ResponseEdit (interaction req) c None]"
    using h no_edit_in_prompts [OF llm_steps_prompts [of env req]] by simp
  moreover have "last (fst (handleImage env req)) = ResponseEdit (interaction req) c None"
    using h by simp
  ultimately show ?thesis using c by blast
next
  case False
  show ?thesis
  proof (cases "gen (prompt_used env req) 1")
    case (Inl err)
    obtain status where st: "HasPrefix status (status_text env req)"
      and h: "handleImage env req =
         (llm_steps env req @
            [CallGenImage (prompt_used env req) 1,
             ResponseEdit (interaction req)
               (status @ ''*ImageGen Error*: '' @ escapeMarkdown err) None], None)"
      using handleImage_generation_fails [OF assms(1) False Inl] by blast
    let ?c = "status @ ''*ImageGen Error*: '' @ escapeMarkdown err"
    have "filter is_edit (fst (handleImage env req)) = [ResponseEdit (interaction req) ?c None]"
      using h no_edit_in_prompts [OF llm_steps_prompts [of env req]] by simp
    moreover have "last (fst (handleImage env req)) = ResponseEdit (interaction req) ?c None"
      using h by simp
    moreover have "HasPrefix ?c (status_text env req)" using st by (rule HasPrefix_extend)
    ultimately show ?thesis by blast
  next
    case (Inr img)
    obtain status drawn img' where st: "HasPrefix status (status_text env req)"
      and d: "list_all (\<lambda>s. \<not> is_edit s) drawn"
      and h: "handleImage env req =
         (case Encode env img' of
            Inl e \<Rightarrow> (llm_steps env req @ [CallGenImage (prompt_used env req) 1] @ drawn @ [CallEncode],
                      None)
          | Inr png \<Rightarrow>
              (llm_steps env req @ [CallGenImage (prompt_used env req) 1] @ drawn
                 @ [CallEncode, ResponseEdit (interaction req) status (Some png)], None))"
      using handleImage_generated [OF assms(1) False Inr] by blast
    obtain png where e: "Encode env img' = Inr png" using assms(2) unfolding encodes_def by blast
    have h': "fst (handleImage env req) =
        llm_steps env req @ [CallGenImage (prompt_used env req) 1] @ drawn
          @ [CallEncode, ResponseEdit (interaction req) status (Some png)]"
      using h e by simp
    have "filter is_edit (fst (handleImage env req)) = [ResponseEdit (interaction req) status (Some png)]"
      using h' no_edit_in_prompts [OF llm_steps_prompts [of env req]] no_edit_filter [OF d] by simp
    moreover have "last (fst (handleImage env req)) = ResponseEdit (interaction req) status (Some png)"
      using h' by simp
    ultimately show ?thesis using st by blast
  qed
qed

text \<open>When the encoding fails the function returns after logging: nothing is edited.\<close>

lemma handleImage_encode_failure_drops_status:
  assumes "GenImage env = Some gen" and "cmdName req \<noteq> ''meme_labels_auto''"
    and "gen (prompt_used env req) 1 = Inr img" and "\<And>i. \<exists>e. Encode env i = Inl e"
  shows "filter is_edit (fst (handleImage env req)) = []"
proof -
  obtain status drawn img' where d: "list_all (\<lambda>s. \<not> is_edit s) drawn"
    and h: "handleImage env req =
         (case Encode env img' of
            Inl e \<Rightarrow> (llm_steps env req @ [CallGenImage (prompt_used env req) 1] @ drawn @ [CallEncode],
                      None)
          | Inr png \<Rightarrow>
              (llm_steps env req @ [CallGenImage (prompt_used env req) 1] @ drawn
                 @ [CallEncode, ResponseEdit (interaction req) status (Some png)], None))"
    using handleImage_generated [OF assms(1) assms(2) assms(3)] by blast
  obtain e where "Encode env img' = Inl e" using assms(4) by blast
  then have "fst (handleImage env req) =
      llm_steps env req @ [CallGenImage (prompt_used env req) 1] @ drawn @ [CallEncode]"
    using h by simp
  then show ?thesis
    using no_edit_in_prompts [OF llm_steps_prompts [of env req]] no_edit_filter [OF d] by simp
qed

text \<open>
  A language model that is down, a generator that works and one that does not, and a request
  for \<open>image_auto\<close>.
\<close>

definition failing_llm :: "Message list \<Rightarrow> string + string" where
  "failing_llm msgs = Inl ''model not loaded''"

definition example_gen :: "string \<Rightarrow> int \<Rightarrow> string + nat" where
  "example_gen prompt seed = Inr 0"

definition failing_gen :: "string \<Rightarrow> int \<Rightarrow> string + nat" where
  "failing_gen prompt seed = Inl ''connection refused''"

definition example_draw :: "nat \<Rightarrow> string \<Rightarrow> nat" where
  "example_draw img meme = Suc img"

definition example_encode :: "nat \<Rightarrow> string + string" where
  "example_encode img = Inr ''PNG''"

definition example_llm_down :: "nat image_env" where
  "example_llm_down =
     \<lparr>Prompt = failing_llm, GenImage = Some example_gen, drawMemeOnImage = example_draw,
      Encode = example_encode\<rparr>"

definition example_all_down :: "nat image_env" where
  "example_all_down =
     \<lparr>Prompt = failing_llm, GenImage = Some failing_gen, drawMemeOnImage = example_draw,
      Encode = example_encode\<rparr>"

definition example_image_req :: intReq where
  "example_image_req =
     \<lparr>description = ''cat'', imagePrompt = [], labelsContent = [], cmdName = ''image_auto'',
      interaction = Some ''i1''\<rparr>"

lemmas image_defs = handleImage_def accumulate_def enhance_def label_def enhance_msgs_def Let_def
  example_llm_down_def example_all_down_def example_image_req_def failing_llm_def example_gen_def
  failing_gen_def example_encode_def


text \<open>
  The messages of the second call to the language model, and the requests that reach
  the end of the pipeline without a nil generator: the command \<open>meme_labels_auto\<close> needs
  no image, the others need \<open>d.ig\<close>.
\<close>

definition label_msgs :: "intReq \<Rightarrow> Message list" where
  "label_msgs req =
     [\<lparr>Role = System, Content = memePrompt_system\<rparr>, \<lparr>Role = User, Content = description req\<rparr>]"

definition generator_ready :: "'img image_env \<Rightarrow> intReq \<Rightarrow> bool" where
  "generator_ready env req = (GenImage env \<noteq> None \<or> cmdName req = ''meme_labels_auto'')"

lemma label_failure:
  assumes "cmdName req = ''meme_auto'' \<or> cmdName req = ''meme_labels_auto''"
    and "Prompt env (label_msgs req) = Inl e"
  shows "Contains (status_text env req) (''*LLM Error*: '' @ escapeMarkdown e @ [newline])"
proof -
  let ?line = "''*LLM Error*: '' @ escapeMarkdown e @ [newline]"
  let ?c = "fst (enhance env req)"
  let ?r = "fst (snd (enhance env req))"
  have k: "cmdName ?r = cmdName req \<and> description ?r = description req"
    using enhance_keeps [of env req] by simp
  have "fst (label env (?c, ?r)) = ?c @ ?line"
    using assms k by (auto simp: label_def label_msgs_def Let_def)
  then have "status_text env req = ?c @ ?line @ []"
    by (simp add: status_text_def accumulate_eq)
  then show ?thesis using Contains_middle [of ?c ?line "[]"] by simp
qed

lemma handleImage_one_edit_ready:
  assumes "generator_ready env req" and "encodes env"
  shows "\<exists>c a. filter is_edit (fst (handleImage env req)) = [ResponseEdit (interaction req) c a]
     \<and> last (fst (handleImage env req)) = ResponseEdit (interaction req) c a
     \<and> HasPrefix c (status_text env req)"
proof (cases "GenImage env")
  case (Some gen)
  then show ?thesis using handleImage_one_edit [OF Some assms(2)] by blast
next
  case None
  then have l: "cmdName req = ''meme_labels_auto''" using assms(1) by (simp add: generator_ready_def)
  obtain c where c: "HasPrefix c (status_text env req)"
    and h: "handleImage env req = (llm_steps env req @ [ResponseEdit (interaction req) c None], None)"
    using handleImage_labels_only [OF l, of env] by blast
  have "filter is_edit (fst (handleImage env req)) = [ResponseEdit (interaction req) c None]"
    using h no_edit_in_prompts [OF llm_steps_prompts [of env req]] by simp
  moreover have "last (fst (handleImage env req)) = ResponseEdit (interaction req) c None"
    using h by simp
  ultimately show ?thesis using c by blast
qed

text \<open>Without a generator, a command that makes an image panics at the call, after the calls
  to the language model: nothing is edited.\<close>

lemma handleImage_nil_generator:
  assumes "GenImage env = None" and "cmdName req \<noteq> ''meme_labels_auto''"
  shows "handleImage env req = (llm_steps env req, Some NilPointerDereference)"
proof -
  let ?req = "fst (snd (accumulate env req))"
  have k: "cmdName ?req \<noteq> ''meme_labels_auto''"
    using accumulate_keeps [of env req] assms(2) by simp
  show ?thesis
    unfolding handleImage_def by (subst accumulate_parts) (simp add: k assms(1) Let_def)
qed


text \<open>
  A request for \<open>meme_auto\<close>, whose two calls to the language model fail, and a bot with no
  image generator, asked for labels only.
\<close>

definition example_meme_req :: intReq where
  "example_meme_req =
     \<lparr>description = ''cat'', imagePrompt = [], labelsContent = [], cmdName = ''meme_auto'',
      interaction = Some ''i2''\<rparr>"

definition example_labels_req :: intReq where
  "example_labels_req =
     \<lparr>description = ''cat'', imagePrompt = [], labelsContent = [], cmdName = ''meme_labels_auto'',
      interaction = Some ''i3''\<rparr>"

definition example_no_generator :: "nat image_env" where
  "example_no_generator =
     \<lparr>Prompt = failing_llm, GenImage = None, drawMemeOnImage = example_draw,
      Encode = example_encode\<rparr>"


section \<open>The sidecar supervisor\<close>

text \<open>
  Paths are kept as written: \<open>Join p name\<close> is \<open>filepath.Join(p, name)\<close>. An error is the
  error of a collaborator (the operating system, the sidecar, the context), or one that
  the supervisor makes: \<open>Wrapped msg err\<close> is \<open>fmt.Errorf(msg + "%w", err)\<close>, where \<open>err\<close>
  may be nil.
\<close>

datatype path = Dir string | Join path string

datatype error =
    External string
  | UnknownModel string
  | InvalidRemote string
  | Wrapped string "error option"

text \<open>\<open>strconv.Itoa\<close>.\<close>

definition digit :: "nat \<Rightarrow> char" where
  "digit d = ''0123456789'' ! d"

function digits :: "nat \<Rightarrow> string" where
  "digits n = (if n < 10 then [digit n] else digits (n div 10) @ [digit (n mod 10)])"
  by pat_completeness auto
termination
  by (relation "measure (\<lambda>n. n)") auto

declare digits.simps [simp del]

definition Itoa :: "int \<Rightarrow> string" where
  "Itoa i = (if i < 0 then ''-'' @ digits (nat (- i)) else digits (nat i))"

text \<open>
  What the supervisor asks of its collaborators, in order: the directory, the virtual
  environment, a free port, the process (its environment, command line, directory and
  log), the probes of readiness, and at the end the call of \<open>cancel\<close> and the receive on
  \<open>done\<close>.
\<close>

datatype arg = File path | Arg string

datatype sys_call =
    MkdirAll path
  | RecreateVirtualEnvIfNeeded path
  | PyNeedRecreate path
  | PyRecreate path
  | FindFreePort
  | Run path "arg list" path path
  | PostHealth string
  | PostGenerate string string int int
  | Cancel nat
  | ReceiveDone nat

text \<open>
  One turn of the polling loop, as the outside decides it: whether \<open>ctx.Err()\<close> is set
  when the condition of the loop is read, the answer of the probe, and what the \<open>select\<close>
  receives first: the exit of the process on \<open>done\<close>, the cancellation on \<open>ctx.Done()\<close>, or
  the 100 ms timer. The list of turns is finite: the loop that has used them all is
  still polling.
\<close>

datatype wake = DoneFired "error option" | CtxDone | After100ms

record 'r poll =
  ctx_err :: bool
  answer :: "error + 'r"
  woken :: wake

text \<open>
  How the loop ends: it is left (by \<open>break\<close> or by its condition), or the function returns
  from inside it with the exit of the process.
\<close>

datatype loop_end = Left | Died "error option" | Polling

text \<open>
  The loop \<open>for ctx.Err() == nil { probe; select { ... } }\<close> that \<open>New\<close> and \<open>NewImageGen\<close>
  both have. \<open>ok\<close> says which answers of the probe break the loop, \<open>has_done\<close> whether
  the channel \<open>done\<close> is set (a receive on a nil channel never happens: the \<open>select\<close>
  then waits for the timer). After \<open>ctx.Done()\<close> the branch is empty and the condition
  of the loop is read next: \<open>ctx.Err()\<close> is set, so the loop is left.
\<close>

definition answered :: "('r \<Rightarrow> bool) \<Rightarrow> 'r poll \<Rightarrow> bool" where
  "answered ok p = (case answer p of Inl err \<Rightarrow> False | Inr r \<Rightarrow> ok r)"

fun pollLoop :: "('r \<Rightarrow> bool) \<Rightarrow> bool \<Rightarrow> sys_call \<Rightarrow> 'r poll list \<Rightarrow> sys_call list \<times> loop_end" where
  "pollLoop ok has_done probe [] = ([], Polling)"
| "pollLoop ok has_done probe (p # ps) =
     (if ctx_err p then ([], Left)
      else if answered ok p then ([probe], Left)
      else
        (case woken p of
           DoneFired err \<Rightarrow>
             if has_done then ([probe], Died err)
             else (let (cs, e) = pollLoop ok has_done probe ps in (probe # cs, e))
         | CtxDone \<Rightarrow> ([probe], Left)
         | After100ms \<Rightarrow> (let (cs, e) = pollLoop ok has_done probe ps in (probe # cs, e))))"

text \<open>The probe of \<open>New\<close> must answer \<open>Ready == true\<close>; for \<open>NewImageGen\<close> any image will do.\<close>

definition health_ok :: "bool \<Rightarrow> bool" where
  "health_ok Ready = (Ready = True)"

definition image_ok :: "string \<Rightarrow> bool" where
  "image_ok png = True"

text \<open>
  What a startup returns: an error, the session, or nothing yet. After the loop both functions
  return the session and a nil error.
\<close>

datatype 'a startup = Failed error | Started 'a | StillPolling

definition startup_of :: "'a \<Rightarrow> loop_end \<Rightarrow> 'a startup" where
  "startup_of ig e =
     (case e of
        Left \<Rightarrow> Started ig
      | Died err \<Rightarrow> Failed (Wrapped ''failed to start: '' err)
      | Polling \<Rightarrow> StillPolling)"

text \<open>
  The options and the session of \<open>imagegen.New\<close>; \<open>done\<close> and \<open>cancel\<close> are the handles that
  \<open>py.Run\<close> returns, nil for a remote sidecar. The field \<open>done\<close> is named \<open>done_ch\<close>.
\<close>

record Options =
  Remote :: string
  Model :: string

record Session =
  baseURL :: string
  done_ch :: "nat option"
  cancel :: "nat option"
  steps :: int

text \<open>
  The collaborators of \<open>New\<close>: the results of \<open>os.MkdirAll\<close> and of the functions of the
  package \<open>py\<close>, which is not among the sources and is taken as given.
\<close>

record py_env =
  mkdirAll :: "error option"
  recreateVirtualEnvIfNeeded :: "error option"
  findFreePort :: int
  run :: "error + nat"
  isHostPort :: "string \<Rightarrow> bool"

text \<open>The first part of \<open>New\<close>, up to the base URL of the sidecar.\<close>

definition launch :: "py_env \<Rightarrow> string \<Rightarrow> Options \<Rightarrow> sys_call list \<times> (error + Session)" where
  "launch env cache opts =
     (let ig = \<lparr>baseURL = [], done_ch = None, cancel = None, steps = 8\<rparr> in
      if Remote opts = [] then
        (if Model opts \<noteq> ''python'' then ([], Inl (UnknownModel (Model opts)))
         else
           (let cachePy = Join (Dir cache) ''py'' in
            case mkdirAll env of
              Some err \<Rightarrow>
                ([MkdirAll cachePy],
                 Inl (Wrapped ''failed to create the directory to cache python: '' (Some err)))
            | None \<Rightarrow>
                (case recreateVirtualEnvIfNeeded env of
                   Some err \<Rightarrow>
                     ([MkdirAll cachePy, RecreateVirtualEnvIfNeeded cachePy],
                      Inl (Wrapped ''failed to load image_gen: '' (Some err)))
                 | None \<Rightarrow>
                     (let port = findFreePort env;
                          cs = [MkdirAll cachePy, RecreateVirtualEnvIfNeeded cachePy, FindFreePort,
                                Run (Join cachePy ''venv'')
                                  [File (Join cachePy ''image_gen.py''), Arg ''--port'', Arg (Itoa port)]
                                  cachePy (Join cachePy ''image_gen.log'')]
                      in case run env of
                           Inl err \<Rightarrow> (cs, Inl err)
                         | Inr h \<Rightarrow>
                             (cs,
                              Inr (ig\<lparr>done_ch := Some h, cancel := Some h,
                                      baseURL := ''http://localhost:'' @ Itoa port\<rparr>))))))
      else
        (if \<not> isHostPort env (Remote opts) then ([], Inl (InvalidRemote (Remote opts)))
         else ([], Inr (ig\<lparr>baseURL := ''http://'' @ Remote opts\<rparr>))))"

text \<open>\<open>New\<close>: the launch, then the polling of \<open>/api/health\<close>.\<close>

definition New :: "py_env \<Rightarrow> string \<Rightarrow> Options \<Rightarrow> bool poll list \<Rightarrow> sys_call list \<times> Session startup" where
  "New env cache opts polls =
     (case launch env cache opts of
        (cs, Inl err) \<Rightarrow> (cs, Failed err)
      | (cs, Inr ig) \<Rightarrow>
          (let (probes, e) = pollLoop health_ok (done_ch ig \<noteq> None)
                               (PostHealth (baseURL ig @ ''/api/health'')) polls
           in (cs @ probes, startup_of ig e)))"

text \<open>\<open>Close\<close>; \<open>exit\<close> is what the process delivers on \<open>done\<close> once cancelled.\<close>

datatype closed = Closed "error option" | Waits

definition Close :: "error option \<Rightarrow> Session \<Rightarrow> sys_call list \<times> closed" where
  "Close exit ig =
     (case cancel ig of
        None \<Rightarrow> ([], Closed None)
      | Some c \<Rightarrow>
          (case done_ch ig of
             None \<Rightarrow> ([Cancel c], Waits)
           | Some h \<Rightarrow> ([Cancel c, ReceiveDone h], Closed exit)))"

text \<open>
  The older \<open>NewImageGen\<close> of the root package, which always owns its process and probes
  it by generating an image with one step.
\<close>

record ImageGenOptions =
  old_Model :: string

record ImageGen =
  old_done :: nat
  old_cancel :: nat
  url :: string
  old_steps :: int
  loading :: bool

record old_env =
  pyNeedRecreate :: bool
  pyRecreate :: "error option"
  old_findFreePort :: int
  runPython :: "error + nat"

definition old_launch :: "old_env \<Rightarrow> string \<Rightarrow> ImageGenOptions \<Rightarrow> sys_call list \<times> (error + ImageGen)" where
  "old_launch env cache opts =
     (if old_Model opts \<noteq> ''python'' then ([], Inl (UnknownModel (old_Model opts)))
      else
        (case (if pyNeedRecreate env then pyRecreate env else None) of
           Some err \<Rightarrow> ([PyNeedRecreate (Dir cache), PyRecreate (Dir cache)], Inl err)
         | None \<Rightarrow>
             (let port = old_findFreePort env;
                  cs = PyNeedRecreate (Dir cache)
                       # (if pyNeedRecreate env then [PyRecreate (Dir cache)] else [])
                       @ [FindFreePort,
                          Run (Join (Dir cache) ''venv'')
                            [File (Join (Dir cache) ''image_gen.py''), Arg ''--port'', Arg (Itoa port)]
                            (Dir cache) (Join (Dir cache) ''image_gen.log'')]
              in case runPython env of
                   Inl err \<Rightarrow> (cs, Inl err)
                 | Inr h \<Rightarrow>
                     (cs, Inr \<lparr>old_done = h, old_cancel = h,
                              url = ''http://localhost:'' @ Itoa port @ ''/'',
                              old_steps = 1, loading = True\<rparr>))))"

definition NewImageGen ::
  "old_env \<Rightarrow> string \<Rightarrow> ImageGenOptions \<Rightarrow> string poll list \<Rightarrow> sys_call list \<times> ImageGen startup" where
  "NewImageGen env cache opts polls =
     (case old_launch env cache opts of
        (cs, Inl err) \<Rightarrow> (cs, Failed err)
      | (cs, Inr ig) \<Rightarrow>
          (let (probes, e) = pollLoop image_ok True
                               (PostGenerate (url ig) ''cat'' (old_steps ig) 1) polls
           in (cs @ probes, startup_of (ig\<lparr>old_steps := 8, loading := False\<rparr>) e)))"

text \<open>
  The turns of the loop, by what they do: a turn that goes on to the next, and the three
  ways out.
\<close>

definition retries :: "('r \<Rightarrow> bool) \<Rightarrow> bool \<Rightarrow> 'r poll \<Rightarrow> bool" where
  "retries ok has_done p =
     (\<not> ctx_err p \<and> \<not> answered ok p
      \<and> (woken p = After100ms \<or> (\<exists>e. woken p = DoneFired e \<and> \<not> has_done)))"

definition cancelled :: "('r \<Rightarrow> bool) \<Rightarrow> 'r poll \<Rightarrow> bool" where
  "cancelled ok p = (ctx_err p \<or> (\<not> answered ok p \<and> woken p = CtxDone))"

definition ready :: "('r \<Rightarrow> bool) \<Rightarrow> 'r poll \<Rightarrow> bool" where
  "ready ok p = (\<not> ctx_err p \<and> answered ok p)"

definition died :: "('r \<Rightarrow> bool) \<Rightarrow> bool \<Rightarrow> 'r poll \<Rightarrow> error option \<Rightarrow> bool" where
  "died ok has_done p e =
     (\<not> ctx_err p \<and> \<not> answered ok p \<and> woken p = DoneFired e \<and> has_done)"

lemma pollLoop_retry:
  "retries ok d p \<Longrightarrow> snd (pollLoop ok d pr (p # ps)) = snd (pollLoop ok d pr ps)"
  by (auto simp: retries_def split: prod.splits wake.splits)

lemma pollLoop_retries:
  "list_all (retries ok d) pre \<Longrightarrow> snd (pollLoop ok d pr (pre @ ps)) = snd (pollLoop ok d pr ps)"
  by (induction pre) (simp_all add: pollLoop_retry del: pollLoop.simps)

lemma pollLoop_cancelled: "cancelled ok p \<Longrightarrow> snd (pollLoop ok d pr (p # ps)) = Left"
  by (auto simp: cancelled_def split: prod.splits wake.splits)

lemma pollLoop_ready: "ready ok p \<Longrightarrow> snd (pollLoop ok d pr (p # ps)) = Left"
  by (auto simp: ready_def)

lemma pollLoop_died: "died ok d p e \<Longrightarrow> snd (pollLoop ok d pr (p # ps)) = Died e"
  by (auto simp: died_def)

lemma poll_cases: "retries ok d p \<or> cancelled ok p \<or> ready ok p \<or> (\<exists>e. died ok d p e)"
  by (cases "woken p") (auto simp: retries_def cancelled_def ready_def died_def)

lemma pollLoop_exit:
  assumes "snd (pollLoop ok d pr ps) \<noteq> Polling"
  shows "\<exists>pre p post. ps = pre @ p # post \<and> list_all (retries ok d) pre
    \<and> (((cancelled ok p \<or> ready ok p) \<and> snd (pollLoop ok d pr ps) = Left)
       \<or> (\<exists>e. died ok d p e \<and> snd (pollLoop ok d pr ps) = Died e))"
  using assms
proof (induction ps)
  case Nil
  then show ?case by simp
next
  case (Cons p ps)
  show ?case
  proof (cases "retries ok d p")
    case True
    have eq: "snd (pollLoop ok d pr (p # ps)) = snd (pollLoop ok d pr ps)"
      by (rule pollLoop_retry [OF True])
    then have "snd (pollLoop ok d pr ps) \<noteq> Polling" using Cons.prems by simp
    then obtain pre q post where dec: "ps = pre @ q # post" and l: "list_all (retries ok d) pre"
      and e: "((cancelled ok q \<or> ready ok q) \<and> snd (pollLoop ok d pr ps) = Left)
       \<or> (\<exists>e. died ok d q e \<and> snd (pollLoop ok d pr ps) = Died e)"
      using Cons.IH by blast
    have "p # ps = (p # pre) @ q # post \<and> list_all (retries ok d) (p # pre)"
      using dec l True by simp
    then show ?thesis using e eq by metis
  next
    case False
    have "p # ps = [] @ p # ps \<and> list_all (retries ok d) []" by simp
    moreover have "((cancelled ok p \<or> ready ok p) \<and> snd (pollLoop ok d pr (p # ps)) = Left)
       \<or> (\<exists>e. died ok d p e \<and> snd (pollLoop ok d pr (p # ps)) = Died e)"
      using False poll_cases [of ok d p] pollLoop_cancelled [of ok p d pr ps]
        pollLoop_ready [of ok p d pr ps] pollLoop_died [of ok d p _ pr ps] by blast
    ultimately show ?thesis by blast
  qed
qed

lemma pollLoop_probes: "list_all (\<lambda>c. c = pr) (fst (pollLoop ok d pr ps))"
  by (induction ps) (auto split: prod.splits wake.splits)

lemma startup_of_simps [simp]:
  "startup_of ig Left = Started ig"
  "startup_of ig (Died e) = Failed (Wrapped ''failed to start: '' e)"
  "startup_of ig Polling = StillPolling"
  by (simp_all add: startup_of_def)

lemma startup_of_StillPolling [simp]: "startup_of ig e = StillPolling \<longleftrightarrow> e = Polling"
  by (cases e) simp_all

text \<open>A startup that ends does so on the first turn that is not a retry.\<close>

definition exits_by :: "('r \<Rightarrow> bool) \<Rightarrow> bool \<Rightarrow> 'r poll list \<Rightarrow> 'a \<Rightarrow> 'a startup \<Rightarrow> bool" where
  "exits_by ok d ps ig r =
     (\<exists>pre p post. ps = pre @ p # post \<and> list_all (retries ok d) pre
        \<and> (((cancelled ok p \<or> ready ok p) \<and> r = Started ig)
           \<or> (\<exists>e. died ok d p e \<and> r = Failed (Wrapped ''failed to start: '' e))))"

lemma pollLoop_exits_iff:
  "(startup_of ig (snd (pollLoop ok d pr ps)) = r \<and> r \<noteq> StillPolling) = exits_by ok d ps ig r"
proof
  assume a: "startup_of ig (snd (pollLoop ok d pr ps)) = r \<and> r \<noteq> StillPolling"
  then have "snd (pollLoop ok d pr ps) \<noteq> Polling" by auto
  then obtain pre p post where dec: "ps = pre @ p # post" and l: "list_all (retries ok d) pre"
    and e: "((cancelled ok p \<or> ready ok p) \<and> snd (pollLoop ok d pr ps) = Left)
       \<or> (\<exists>e. died ok d p e \<and> snd (pollLoop ok d pr ps) = Died e)"
    using pollLoop_exit [of ok d pr ps] by blast
  from e a have "((cancelled ok p \<or> ready ok p) \<and> r = Started ig)
           \<or> (\<exists>e. died ok d p e \<and> r = Failed (Wrapped ''failed to start: '' e))"
    by auto
  then show "exits_by ok d ps ig r" using dec l unfolding exits_by_def by blast
next
  assume "exits_by ok d ps ig r"
  then obtain pre p post where dec: "ps = pre @ p # post" and l: "list_all (retries ok d) pre"
    and e: "((cancelled ok p \<or> ready ok p) \<and> r = Started ig)
           \<or> (\<exists>e. died ok d p e \<and> r = Failed (Wrapped ''failed to start: '' e))"
    unfolding exits_by_def by blast
  have eq: "snd (pollLoop ok d pr ps) = snd (pollLoop ok d pr (p # post))"
    using pollLoop_retries [OF l, of pr "p # post"] dec by simp
  from e show "startup_of ig (snd (pollLoop ok d pr ps)) = r \<and> r \<noteq> StillPolling"
  proof
    assume c: "(cancelled ok p \<or> ready ok p) \<and> r = Started ig"
    then have "snd (pollLoop ok d pr (p # post)) = Left"
      using pollLoop_cancelled [of ok p d pr post] pollLoop_ready [of ok p d pr post] by blast
    then show ?thesis using c eq by simp
  next
    assume "\<exists>e. died ok d p e \<and> r = Failed (Wrapped ''failed to start: '' e)"
    then obtain x where x: "died ok d p x" and r: "r = Failed (Wrapped ''failed to start: '' x)"
      by blast
    have "snd (pollLoop ok d pr (p # post)) = Died x" by (rule pollLoop_died [OF x])
    then show ?thesis using r eq by simp
  qed
qed

lemma New_launched:
  assumes "launch env cache opts = (cs, Inr ig)"
  shows "snd (New env cache opts ps) =
     startup_of ig (snd (pollLoop health_ok (done_ch ig \<noteq> None)
                       (PostHealth (baseURL ig @ ''/api/health'')) ps))"
  using assms by (simp add: New_def split: prod.splits)

lemma NewImageGen_launched:
  assumes "old_launch env cache opts = (cs, Inr ig)"
  shows "snd (NewImageGen env cache opts ps) =
     startup_of (ig\<lparr>old_steps := 8, loading := False\<rparr>)
       (snd (pollLoop image_ok True (PostGenerate (url ig) ''cat'' (old_steps ig) 1) ps))"
  using assms by (simp add: NewImageGen_def split: prod.splits)

lemma exits_by_cancelled:
  "list_all (retries ok d) pre \<Longrightarrow> cancelled ok p \<Longrightarrow> exits_by ok d (pre @ p # post) ig (Started ig)"
  unfolding exits_by_def by blast

text \<open>
  C7, amended. Once the sidecar is launched, a startup that ends does so on the first
  turn of the polling that is not a retry, and only in these ways: the context is
  cancelled or the sidecar answers ready, and the startup returns the session with no
  error; or the process exits first, and it returns an error wrapping the exit error. In
  particular a cancellation ends the polling, and the startup then returns the session.
  The same holds for \<open>NewImageGen\<close>.
\<close>

theorem startup_poll_exits:
  assumes "launch env cache opts = (cs, Inr ig)"
    and "old_launch env' cache' opts' = (cs', Inr ig')"
  shows
    "((snd (New env cache opts ps) = r \<and> r \<noteq> StillPolling)
        = exits_by health_ok (done_ch ig \<noteq> None) ps ig r)
     \<and> (list_all (retries health_ok (done_ch ig \<noteq> None)) pre \<and> cancelled health_ok p
        \<longrightarrow> snd (New env cache opts (pre @ p # post)) = Started ig)
     \<and> ((snd (NewImageGen env' cache' opts' ps') = r' \<and> r' \<noteq> StillPolling)
        = exits_by image_ok True ps' (ig'\<lparr>old_steps := 8, loading := False\<rparr>) r')
     \<and> (list_all (retries image_ok True) pre' \<and> cancelled image_ok p'
        \<longrightarrow> snd (NewImageGen env' cache' opts' (pre' @ p' # post'))
            = Started (ig'\<lparr>old_steps := 8, loading := False\<rparr>))"
proof -
  note n = New_launched [OF assms(1)] and o = NewImageGen_launched [OF assms(2)]
  have a: "(snd (New env cache opts ps) = r \<and> r \<noteq> StillPolling)
        = exits_by health_ok (done_ch ig \<noteq> None) ps ig r"
    unfolding n by (rule pollLoop_exits_iff)
  have b: "list_all (retries health_ok (done_ch ig \<noteq> None)) pre \<and> cancelled health_ok p
        \<longrightarrow> snd (New env cache opts (pre @ p # post)) = Started ig"
    unfolding n
    using pollLoop_exits_iff [of ig health_ok "done_ch ig \<noteq> None" _ "pre @ p # post" "Started ig"]
      exits_by_cancelled [of health_ok "done_ch ig \<noteq> None" pre p post ig]
    by blast
  have c: "(snd (NewImageGen env' cache' opts' ps') = r' \<and> r' \<noteq> StillPolling)
        = exits_by image_ok True ps' (ig'\<lparr>old_steps := 8, loading := False\<rparr>) r'"
    unfolding o by (rule pollLoop_exits_iff)
  have d: "list_all (retries image_ok True) pre' \<and> cancelled image_ok p'
        \<longrightarrow> snd (NewImageGen env' cache' opts' (pre' @ p' # post'))
            = Started (ig'\<lparr>old_steps := 8, loading := False\<rparr>)"
    unfolding o
    using pollLoop_exits_iff [of "ig'\<lparr>old_steps := 8, loading := False\<rparr>" image_ok True _
        "pre' @ p' # post'" "Started (ig'\<lparr>old_steps := 8, loading := False\<rparr>)"]
      exits_by_cancelled [of image_ok True pre' p' post' "ig'\<lparr>old_steps := 8, loading := False\<rparr>"]
    by blast
  show ?thesis using a b c d by blast
qed

text \<open>
  C9. With a remote endpoint configured, \<open>New\<close> validates its form and makes no call
  but the probes of readiness, all to that endpoint: no directory, no environment, no
  port, no process. The session it returns has no terminate handle, and \<open>Close\<close> on it
  makes no call and returns nil.
\<close>

theorem New_remote:
  assumes "Remote opts \<noteq> []"
  shows "(if isHostPort env (Remote opts)
          then launch env cache opts
               = ([], Inr \<lparr>baseURL = ''http://'' @ Remote opts, done_ch = None, cancel = None, steps = 8\<rparr>)
          else New env cache opts ps = ([], Failed (InvalidRemote (Remote opts))))
     \<and> list_all (\<lambda>c. c = PostHealth (''http://'' @ Remote opts @ ''/api/health''))
          (fst (New env cache opts ps))
     \<and> (snd (New env cache opts ps) = Started ig \<longrightarrow>
          cancel ig = None \<and> Close exit ig = ([], Closed None))"
proof -
  let ?ig = "\<lparr>baseURL = ''http://'' @ Remote opts, done_ch = None, cancel = None, steps = 8\<rparr>"
  show ?thesis
  proof (cases "isHostPort env (Remote opts)")
    case True
    have l: "launch env cache opts = ([], Inr ?ig)"
      using assms True by (simp add: launch_def)
    have f: "fst (New env cache opts ps)
       = fst (pollLoop health_ok False (PostHealth (''http://'' @ Remote opts @ ''/api/health'')) ps)"
      using l by (simp add: New_def split: prod.splits)
    have s: "snd (New env cache opts ps) = Started ig \<longrightarrow> ig = ?ig"
      using New_launched [OF l, of ps]
      by (cases "snd (pollLoop health_ok (done_ch ?ig \<noteq> None)
                   (PostHealth (baseURL ?ig @ ''/api/health'')) ps)") auto
    show ?thesis using True l f s pollLoop_probes by (auto simp: Close_def)
  next
    case False
    then have "New env cache opts ps = ([], Failed (InvalidRemote (Remote opts)))"
      using assms by (simp add: New_def launch_def)
    then show ?thesis using False by simp
  qed
qed

text \<open>
  A local startup on port 8031, and turns of the loop. \<open>py.IsHostPort\<close> is replaced by a test
  for a colon.
\<close>

definition example_isHostPort :: "string \<Rightarrow> bool" where
  "example_isHostPort s = (CHR '':'' \<in> set s)"

definition example_env :: py_env where
  "example_env = \<lparr>mkdirAll = None, recreateVirtualEnvIfNeeded = None, findFreePort = 8031,
                   run = Inr 1, isHostPort = example_isHostPort\<rparr>"

definition example_local :: Options where
  "example_local = \<lparr>Remote = [], Model = ''python''\<rparr>"

definition example_launched :: "sys_call list" where
  "example_launched =
     [MkdirAll (Join (Dir ''cache'') ''py''),
      RecreateVirtualEnvIfNeeded (Join (Dir ''cache'') ''py''),
      FindFreePort,
      Run (Join (Join (Dir ''cache'') ''py'') ''venv'')
        [File (Join (Join (Dir ''cache'') ''py'') ''image_gen.py''), Arg ''--port'', Arg ''8031'']
        (Join (Dir ''cache'') ''py'') (Join (Join (Dir ''cache'') ''py'') ''image_gen.log'')]"

definition example_session :: Session where
  "example_session = \<lparr>baseURL = ''http://localhost:8031'', done_ch = Some 1, cancel = Some 1, steps = 8\<rparr>"

definition context_canceled :: error where
  "context_canceled = External ''context canceled''"

definition connection_refused :: error where
  "connection_refused = External ''connection refused''"

definition poll_cancelled_before :: "bool poll" where
  "poll_cancelled_before = \<lparr>ctx_err = True, answer = Inl context_canceled, woken = CtxDone\<rparr>"

definition poll_waiting :: "bool poll" where
  "poll_waiting = \<lparr>ctx_err = False, answer = Inl connection_refused, woken = After100ms\<rparr>"

definition poll_cancelled_during :: "bool poll" where
  "poll_cancelled_during = \<lparr>ctx_err = False, answer = Inl context_canceled, woken = CtxDone\<rparr>"

lemma Itoa_8031: "Itoa 8031 = ''8031''"
  by (simp add: Itoa_def digits.simps digit_def)

lemma example_launch: "launch example_env ''cache'' example_local = (example_launched, Inr example_session)"
  by (simp add: launch_def example_env_def example_local_def example_launched_def
      example_session_def Itoa_8031 Let_def)

text \<open>
  C7, as stated, fails: a cancellation during the polling is claimed to make the startup
  fail with a cancellation error. Here the probe fails with the cancellation and the
  \<open>select\<close> receives \<open>ctx.Done()\<close>; the loop is left and \<open>New\<close> returns the session.
\<close>

theorem New_cancelled_returns_session:
  "cancelled health_ok poll_cancelled_during
   \<and> answer poll_cancelled_during = Inl context_canceled
   \<and> snd (New example_env ''cache'' example_local [poll_waiting, poll_cancelled_during])
       = Started example_session"
  by (simp add: New_def example_launch poll_waiting_def poll_cancelled_during_def answered_def
      cancelled_def example_session_def)

text \<open>The same for \<open>NewImageGen\<close>.\<close>

definition example_old_env :: old_env where
  "example_old_env = \<lparr>pyNeedRecreate = False, pyRecreate = None, old_findFreePort = 8031,
                       runPython = Inr 1\<rparr>"

definition example_old_opts :: ImageGenOptions where
  "example_old_opts = \<lparr>old_Model = ''python''\<rparr>"

definition example_old_launched :: "sys_call list" where
  "example_old_launched =
     [PyNeedRecreate (Dir ''cache''), FindFreePort,
      Run (Join (Dir ''cache'') ''venv'')
        [File (Join (Dir ''cache'') ''image_gen.py''), Arg ''--port'', Arg ''8031'']
        (Dir ''cache'') (Join (Dir ''cache'') ''image_gen.log'')]"

definition example_old_loading :: ImageGen where
  "example_old_loading = \<lparr>old_done = 1, old_cancel = 1, url = ''http://localhost:8031/'',
                           old_steps = 1, loading = True\<rparr>"

definition old_poll_cancelled :: "string poll" where
  "old_poll_cancelled = \<lparr>ctx_err = True, answer = Inl context_canceled, woken = CtxDone\<rparr>"

lemma example_old_launch:
  "old_launch example_old_env ''cache'' example_old_opts = (example_old_launched, Inr example_old_loading)"
  by (simp add: old_launch_def example_old_env_def example_old_opts_def example_old_launched_def
      example_old_loading_def Itoa_8031 Let_def)

text \<open>A cancellation after one retry, and a cancellation before the first probe.\<close>

theorem startup_poll_exits_witness:
  "launch example_env ''cache'' example_local = (example_launched, Inr example_session)
   \<and> old_launch example_old_env ''cache'' example_old_opts = (example_old_launched, Inr example_old_loading)
   \<and> list_all (retries health_ok (done_ch example_session \<noteq> None)) [poll_waiting]
   \<and> cancelled health_ok poll_cancelled_before
   \<and> snd (New example_env ''cache'' example_local [poll_waiting, poll_cancelled_before])
       = Started example_session
   \<and> cancelled image_ok old_poll_cancelled
   \<and> snd (NewImageGen example_old_env ''cache'' example_old_opts [old_poll_cancelled])
       = Started (example_old_loading\<lparr>old_steps := 8, loading := False\<rparr>)"
proof -
  have r: "list_all (retries health_ok (done_ch example_session \<noteq> None)) [poll_waiting]"
    by (simp add: retries_def poll_waiting_def answered_def)
  have c: "cancelled health_ok poll_cancelled_before"
    by (simp add: cancelled_def poll_cancelled_before_def)
  have c': "list_all (retries image_ok True) [] \<and> cancelled image_ok old_poll_cancelled"
    by (simp add: cancelled_def old_poll_cancelled_def)
  show ?thesis
    using startup_poll_exits [OF example_launch example_old_launch,
        of _ _ "[poll_waiting]" poll_cancelled_before "[]" _ _ "[]" old_poll_cancelled "[]"]
      example_launch example_old_launch r c c'
    by simp
qed

text \<open>A remote sidecar.\<close>

definition example_remote :: Options where
  "example_remote = \<lparr>Remote = ''gpu:8032'', Model = []\<rparr>"

definition example_remote_session :: Session where
  "example_remote_session = \<lparr>baseURL = ''http://gpu:8032'', done_ch = None, cancel = None, steps = 8\<rparr>"

definition poll_ready :: "bool poll" where
  "poll_ready = \<lparr>ctx_err = False, answer = Inr True, woken = After100ms\<rparr>"

text \<open>A remote sidecar that answers ready at the second probe.\<close>

theorem New_remote_witness:
  "Remote example_remote \<noteq> []
   \<and> launch example_env ''cache'' example_remote = ([], Inr example_remote_session)
   \<and> fst (New example_env ''cache'' example_remote [poll_waiting, poll_ready])
       = [PostHealth ''http://gpu:8032/api/health'', PostHealth ''http://gpu:8032/api/health'']
   \<and> snd (New example_env ''cache'' example_remote [poll_waiting, poll_ready])
       = Started example_remote_session
   \<and> cancel example_remote_session = None
   \<and> Close (Some connection_refused) example_remote_session = ([], Closed None)"
proof -
  have a: "Remote example_remote \<noteq> []" by (simp add: example_remote_def)
  have h: "isHostPort example_env (Remote example_remote)"
    by (simp add: example_env_def example_remote_def example_isHostPort_def)
  have l: "launch example_env ''cache'' example_remote = ([], Inr example_remote_session)"
    using New_remote [OF a, of example_env "''cache''"] h
    by (simp add: example_remote_def example_remote_session_def)
  have n: "New example_env ''cache'' example_remote [poll_waiting, poll_ready]
     = ([PostHealth ''http://gpu:8032/api/health'', PostHealth ''http://gpu:8032/api/health''],
        Started example_remote_session)"
    by (simp add: New_def l poll_waiting_def poll_ready_def answered_def health_ok_def
        example_remote_session_def)
  show ?thesis
    using a l n
      New_remote [OF a, of example_env "''cache''" "[poll_waiting, poll_ready]"
        example_remote_session "Some connection_refused"]
    by simp
qed

end
